theory Spec2Isabelle
  imports Main "HOL-Library.Word"
begin

section \<open>Cache key construction (cache.go, buildKey)\<close>

text \<open>
  Go strings and byte slices are both sequences of bytes, so both are \<open>string\<close> here.
  A float64 is a value of the type parameter \<open>'f\<close>; a float32 index value is held as
  the float64 it widens to, and \<open>strconv.FormatFloat(_, 'f', -1, 64)\<close> is the parameter
  \<open>fmtFloat\<close> of \<open>buildKey\<close>.
\<close>

datatype error = ModelRuntimeError string | ModelNotFoundError | NilPointerDereference

text \<open>
  The dynamic type of one element of \<open>indexes ...interface{}\<close>. \<open>IValuerOk v\<close> is a
  \<open>driver.Valuer\<close> whose \<open>Value()\<close> returns \<open>v\<close>, \<open>IValuerErr msg\<close> one whose
  \<open>Value()\<close> returns an error with text \<open>msg\<close>, and \<open>IOther\<close> is any other dynamic
  type (bool, nil, time.Time, a named integer type, ...).
\<close>

datatype 'f index_value =
    IInt "64 word" | IInt64 "64 word" | IUint "64 word" | IUint64 "64 word"
  | IInt32 "32 word" | IInt16 "16 word" | IInt8 "8 word"
  | IUint32 "32 word" | IUint16 "16 word" | IUint8 "8 word"
  | IFloat32 'f | IFloat64 'f
  | IString string | IBytes string
  | IValuerOk "'f index_value" | IValuerErr string
  | IOther

text \<open>Base-10 formatting, as \<open>%d\<close>, \<open>strconv.FormatInt\<close> and \<open>strconv.FormatUint\<close> do.\<close>

definition digit_char :: "nat \<Rightarrow> char" where
  "digit_char d = ''0123456789'' ! d"

fun FormatUint :: "nat \<Rightarrow> string" where
  "FormatUint n = (if n < 10 then [digit_char n] else FormatUint (n div 10) @ [digit_char (n mod 10)])"

declare FormatUint.simps [simp del]

definition FormatInt :: "int \<Rightarrow> string" where
  "FormatInt i = (if i < 0 then CHR ''-'' # FormatUint (nat (- i)) else FormatUint (nat i))"

text \<open>
  One pass through the type switch at label \<open>assert\<close>: the text written to the builder,
  or the error. The \<open>goto assert\<close> of the \<open>driver.Valuer\<close> case is the recursive call.
\<close>

fun writeIndex :: "('f \<Rightarrow> string) \<Rightarrow> 'f index_value \<Rightarrow> error + string" where
  "writeIndex fmtFloat (IInt m) = Inr (CHR 0x60 # FormatInt (sint m))"
| "writeIndex fmtFloat (IInt64 m) = Inr (CHR 0x60 # FormatInt (sint m))"
| "writeIndex fmtFloat (IUint m) = Inr (CHR 0x60 # FormatUint (unat m))"
| "writeIndex fmtFloat (IUint64 m) = Inr (CHR 0x60 # FormatUint (unat m))"
| "writeIndex fmtFloat (IInt32 m) = Inr (CHR 0x60 # FormatInt (sint m))"
| "writeIndex fmtFloat (IInt16 m) = Inr (CHR 0x60 # FormatInt (sint m))"
| "writeIndex fmtFloat (IInt8 m) = Inr (CHR 0x60 # FormatInt (sint m))"
| "writeIndex fmtFloat (IUint32 m) = Inr (CHR 0x60 # FormatUint (unat m))"
| "writeIndex fmtFloat (IUint16 m) = Inr (CHR 0x60 # FormatUint (unat m))"
| "writeIndex fmtFloat (IUint8 m) = Inr (CHR 0x60 # FormatUint (unat m))"
| "writeIndex fmtFloat (IFloat32 m) = Inr (CHR 0x60 # fmtFloat m)"
| "writeIndex fmtFloat (IFloat64 m) = Inr (CHR 0x60 # fmtFloat m)"
| "writeIndex fmtFloat (IString m) =
     (if m = [] then Inl (ModelRuntimeError ''the index key can not be empty string'')
      else Inr (CHR 0x60 # m))"
| "writeIndex fmtFloat (IBytes m) = Inr (CHR 0x60 # m)"
| "writeIndex fmtFloat (IValuerOk v) = writeIndex fmtFloat v"
| "writeIndex fmtFloat (IValuerErr msg) = Inl (ModelRuntimeError msg)"
| "writeIndex fmtFloat IOther = Inl (ModelRuntimeError ''not support index key'')"

text \<open>The \<open>for _, v := range indexes\<close> loop over the builder's contents so far.\<close>

fun buildLoop :: "('f \<Rightarrow> string) \<Rightarrow> string \<Rightarrow> 'f index_value list \<Rightarrow> error + string" where
  "buildLoop fmtFloat buildStr [] = Inr buildStr"
| "buildLoop fmtFloat buildStr (v # indexes) =
     (case writeIndex fmtFloat v of
        Inl err \<Rightarrow> Inl err
      | Inr w \<Rightarrow> buildLoop fmtFloat (buildStr @ w) indexes)"

definition buildKey :: "('f \<Rightarrow> string) \<Rightarrow> string \<Rightarrow> 'f index_value list \<Rightarrow> error + string" where
  "buildKey fmtFloat tableName indexes = buildLoop fmtFloat tableName indexes"


section \<open>The LRU cache (cache.go, modelLruCache)\<close>

text \<open>
  A \<open>*list.Element\<close> is an address: a natural number handed out by \<open>nextElem\<close>, the
  allocation counter. The \<open>container/list\<close> list is the sequence of its linked
  elements from front to back, each an address with the key it stores. The field
  \<open>time\<close> of \<open>element\<close> is written once and never read, and the mutex serialises the
  operations; neither is part of the state here. \<open>int\<close> is unbounded: \<open>used\<close> counts
  live entries and \<open>capacity\<close> is only compared.
\<close>

record 'm element =
  listElem :: nat
  model :: 'm

record 'm modelLruCache =
  elements :: "string \<rightharpoonup> 'm element"
  lruList :: "(nat \<times> string) list"
  capacity :: int
  used :: int
  nextElem :: nat

text \<open>
  An operation either returns or panics; the cache it has mutated so far stays behind
  in both cases (the deferred \<open>Unlock\<close> runs, the object remains).
\<close>

datatype 'a outcome = Returned 'a | Panicked error 'a

fun stateOf :: "'a outcome \<Rightarrow> 'a" where
  "stateOf (Returned s) = s"
| "stateOf (Panicked e s) = s"

definition newDaoLru :: "int \<Rightarrow> 'm modelLruCache" where
  "newDaoLru cap = \<lparr>elements = Map.empty, lruList = [], capacity = cap, used = 0, nextElem = 0\<rparr>"

text \<open>
  \<open>container/list\<close>: \<open>MoveToBack\<close> and \<open>Remove\<close> do nothing for an element that is
  not linked in this list; \<open>MoveToBack\<close> also returns at once when the element is
  already the last one.
\<close>

definition MoveToBack :: "nat \<Rightarrow> (nat \<times> string) list \<Rightarrow> (nat \<times> string) list" where
  "MoveToBack e l =
     (case find (\<lambda>n. fst n = e) l of
        None \<Rightarrow> l
      | Some n \<Rightarrow> if fst (last l) = e then l else filter (\<lambda>n. fst n \<noteq> e) l @ [n])"

definition Remove :: "nat \<Rightarrow> (nat \<times> string) list \<Rightarrow> (nat \<times> string) list" where
  "Remove e l = filter (\<lambda>n. fst n \<noteq> e) l"

definition Get :: "string \<Rightarrow> 'm modelLruCache \<Rightarrow> (error + 'm) \<times> 'm modelLruCache" where
  "Get key lru =
     (if used lru > 0 then
        (case elements lru key of
           Some element \<Rightarrow>
             (Inr (model element), lru\<lparr>lruList := MoveToBack (listElem element) (lruList lru)\<rparr>)
         | None \<Rightarrow> (Inl ModelNotFoundError, lru))
      else (Inl ModelNotFoundError, lru))"

definition addElement :: "string \<Rightarrow> 'm \<Rightarrow> 'm modelLruCache \<Rightarrow> 'm modelLruCache" where
  "addElement key m lru =
     lru\<lparr>used := used lru + 1,
         lruList := lruList lru @ [(nextElem lru, key)],
         elements := (elements lru)(key \<mapsto> \<lparr>listElem = nextElem lru, model = m\<rparr>),
         nextElem := Suc (nextElem lru)\<rparr>"

text \<open>
  The loop of \<open>delListFrontElement\<close>; \<open>u\<close> is its local counter \<open>used\<close>. On an empty
  list \<open>Front()\<close> is nil and \<open>frontElem.Value\<close> panics.
\<close>

function delLoop :: "int \<Rightarrow> 'm modelLruCache \<Rightarrow> 'm modelLruCache outcome" where
  "delLoop u lru =
     (if u > capacity lru then
        (case lruList lru of
           [] \<Rightarrow> Panicked NilPointerDereference lru
         | frontElem # _ \<Rightarrow>
             delLoop (u - 1)
               (case elements lru (snd frontElem) of
                  Some element \<Rightarrow>
                    lru\<lparr>lruList := Remove (listElem element) (lruList lru),
                        elements := (elements lru)(snd frontElem := None),
                        used := used lru - 1\<rparr>
                | None \<Rightarrow> lru))
      else Returned lru)"
  by pat_completeness auto
termination
  by (relation "measure (\<lambda>(u, lru). nat (u - capacity lru))") (auto split: option.splits)

declare delLoop.simps [simp del]

definition delListFrontElement :: "'m modelLruCache \<Rightarrow> 'm modelLruCache outcome" where
  "delListFrontElement lru = delLoop (used lru) lru"

definition resetCapacity :: "int \<Rightarrow> 'm modelLruCache \<Rightarrow> 'm modelLruCache outcome" where
  "resetCapacity cap lru = delListFrontElement (lru\<lparr>capacity := cap\<rparr>)"

text \<open>
  \<open>daoModelLruCacheCapacity\<close> is a package constant declared outside cache.go; it is
  the first argument of \<open>Clear\<close>.
\<close>

definition Clear :: "int \<Rightarrow> 'm modelLruCache \<Rightarrow> 'm modelLruCache" where
  "Clear daoModelLruCacheCapacity lru =
     lru\<lparr>elements := Map.empty, lruList := [], used := 0, capacity := daoModelLruCacheCapacity\<rparr>"

definition Put :: "string \<Rightarrow> 'm \<Rightarrow> 'm modelLruCache \<Rightarrow> 'm modelLruCache outcome" where
  "Put key m lru =
     (if capacity lru < 1 then Returned lru
      else
        (case elements lru key of
           Some elem \<Rightarrow>
             Returned (lru\<lparr>elements := (elements lru)(key \<mapsto> \<lparr>listElem = listElem elem, model = m\<rparr>),
                           lruList := MoveToBack (listElem elem) (lruList lru)\<rparr>)
         | None \<Rightarrow> delListFrontElement (addElement key m lru)))"

definition Del :: "string \<Rightarrow> 'm modelLruCache \<Rightarrow> 'm modelLruCache" where
  "Del key lru =
     (case elements lru key of
        Some element \<Rightarrow>
          lru\<lparr>lruList := Remove (listElem element) (lruList lru),
              elements := (elements lru)(key := None),
              used := used lru - 1\<rparr>
      | None \<Rightarrow> lru)"

text \<open>
  Sequences of calls on one cache. A caller that recovers from a panic goes on with the
  cache as the panic left it, so \<open>run\<close> continues from that state.
\<close>

datatype 'm cacheOp =
    OpGet string | OpPut string 'm | OpDel string | OpResetCapacity int | OpClear

fun step :: "int \<Rightarrow> 'm cacheOp \<Rightarrow> 'm modelLruCache \<Rightarrow> 'm modelLruCache outcome" where
  "step dflt (OpGet key) lru = Returned (snd (Get key lru))"
| "step dflt (OpPut key m) lru = Put key m lru"
| "step dflt (OpDel key) lru = Returned (Del key lru)"
| "step dflt (OpResetCapacity cap) lru = resetCapacity cap lru"
| "step dflt OpClear lru = Returned (Clear dflt lru)"

fun run :: "int \<Rightarrow> 'm cacheOp list \<Rightarrow> 'm modelLruCache \<Rightarrow> 'm modelLruCache" where
  "run dflt [] lru = lru"
| "run dflt (x # xs) lru = run dflt xs (stateOf (step dflt x lru))"

text \<open>Putting a list of key/object pairs, in order.\<close>

definition putAll :: "(string \<times> 'm) list \<Rightarrow> 'm cacheOp list" where
  "putAll kvs = map (\<lambda>(k, v). OpPut k v) kvs"


text \<open>
  The consistency of a cache: the linked elements are distinct addresses handed out
  before, no key is stored twice in the list, every element of the list is the one the
  map's entry for its key points to, the keys of the map are the keys stored in the
  list, and \<open>used\<close> is the length of the list. \<open>lruInv\<close> adds that \<open>used\<close> does not
  exceed the capacity (or is zero for a capacity below zero).
\<close>

definition lruWf :: "'m modelLruCache \<Rightarrow> bool" where
  "lruWf lru \<longleftrightarrow>
     distinct (map fst (lruList lru)) \<and>
     distinct (map snd (lruList lru)) \<and>
     (\<forall>n \<in> set (lruList lru). fst n < nextElem lru \<and>
        (\<exists>el. elements lru (snd n) = Some el \<and> listElem el = fst n)) \<and>
     dom (elements lru) = snd ` set (lruList lru) \<and>
     used lru = int (length (lruList lru))"

definition lruInv :: "'m modelLruCache \<Rightarrow> bool" where
  "lruInv lru \<longleftrightarrow> lruWf lru \<and> used lru \<le> max 0 (capacity lru)"

text \<open>The keys in the list, from least to most recently used.\<close>

definition lruKeys :: "'m modelLruCache \<Rightarrow> string list" where
  "lruKeys lru = map snd (lruList lru)"


section \<open>The decoder (package internal: ScanStruct, ScanStructSlice)\<close>

subsection \<open>Values, types and errors\<close>

text \<open>\<open>reflect.Kind\<close>, in the order of its constants; \<open>kindOrd\<close> is the constant's value.\<close>

datatype Kind =
    KInvalid | KBool | KInt | KInt8 | KInt16 | KInt32 | KInt64
  | KUint | KUint8 | KUint16 | KUint32 | KUint64 | KUintptr
  | KFloat32 | KFloat64 | KComplex64 | KComplex128
  | KArray | KChan | KFunc | KInterface | KMap | KPointer | KSlice | KString | KStruct
  | KUnsafePointer

fun kindOrd :: "Kind \<Rightarrow> nat" where
  "kindOrd KInvalid = 0" | "kindOrd KBool = 1" | "kindOrd KInt = 2" | "kindOrd KInt8 = 3"
| "kindOrd KInt16 = 4" | "kindOrd KInt32 = 5" | "kindOrd KInt64 = 6" | "kindOrd KUint = 7"
| "kindOrd KUint8 = 8" | "kindOrd KUint16 = 9" | "kindOrd KUint32 = 10" | "kindOrd KUint64 = 11"
| "kindOrd KUintptr = 12" | "kindOrd KFloat32 = 13" | "kindOrd KFloat64 = 14"
| "kindOrd KComplex64 = 15" | "kindOrd KComplex128 = 16" | "kindOrd KArray = 17"
| "kindOrd KChan = 18" | "kindOrd KFunc = 19" | "kindOrd KInterface = 20" | "kindOrd KMap = 21"
| "kindOrd KPointer = 22" | "kindOrd KSlice = 23" | "kindOrd KString = 24"
| "kindOrd KStruct = 25" | "kindOrd KUnsafePointer = 26"

definition isIntSeriesType :: "Kind \<Rightarrow> bool" where
  "isIntSeriesType k = (kindOrd k \<ge> kindOrd KInt \<and> kindOrd k \<le> kindOrd KInt64)"

definition isUintSeriesType :: "Kind \<Rightarrow> bool" where
  "isUintSeriesType k = (kindOrd k \<ge> kindOrd KUint \<and> kindOrd k \<le> kindOrd KUint64)"

definition isFloatSeriesType :: "Kind \<Rightarrow> bool" where
  "isFloatSeriesType k = (k = KFloat32 \<or> k = KFloat64)"

text \<open>
  A \<open>reflect.Type\<close>: the predeclared type of a kind (\<open>int8\<close>, \<open>string\<close>, \<open>bool\<close>, ...),
  \<open>[]byte\<close>, \<open>time.Time\<close>, a pointer type, any other type with its kind (a named
  integer, a struct, a map, ...), and the nil \<open>Type\<close> that \<open>reflect.TypeOf(nil)\<close> is.
\<close>

datatype goType = TBasic Kind | TBytes | TTime | TPtr goType | TOther Kind | TNil

fun kindOfType :: "goType \<Rightarrow> Kind" where
  "kindOfType (TBasic k) = k"
| "kindOfType TBytes = KSlice"
| "kindOfType TTime = KStruct"
| "kindOfType (TPtr t) = KPointer"
| "kindOfType (TOther k) = k"
| "kindOfType TNil = KInvalid"

text \<open>
  A raw value \<open>dataVal interface{}\<close> by dynamic type. \<open>int\<close> and \<open>uint\<close> are 64 bits
  wide; a float32 is held as the float64 it widens to; \<open>DOther k\<close> is a value of any
  other type, of kind \<open>k\<close>; \<open>DNil\<close> is the nil interface.
\<close>

datatype ('f, 't) dataVal =
    DInt "64 word" | DInt8 "8 word" | DInt16 "16 word" | DInt32 "32 word" | DInt64 "64 word"
  | DUint "64 word" | DUint8 "8 word" | DUint16 "16 word" | DUint32 "32 word" | DUint64 "64 word"
  | DFloat32 'f | DFloat64 'f
  | DString string | DBytes string | DTime 't
  | DOther Kind | DNil

fun typeOfData :: "('f, 't) dataVal \<Rightarrow> goType" where
  "typeOfData (DInt v) = TBasic KInt" | "typeOfData (DInt8 v) = TBasic KInt8"
| "typeOfData (DInt16 v) = TBasic KInt16" | "typeOfData (DInt32 v) = TBasic KInt32"
| "typeOfData (DInt64 v) = TBasic KInt64" | "typeOfData (DUint v) = TBasic KUint"
| "typeOfData (DUint8 v) = TBasic KUint8" | "typeOfData (DUint16 v) = TBasic KUint16"
| "typeOfData (DUint32 v) = TBasic KUint32" | "typeOfData (DUint64 v) = TBasic KUint64"
| "typeOfData (DFloat32 v) = TBasic KFloat32" | "typeOfData (DFloat64 v) = TBasic KFloat64"
| "typeOfData (DString v) = TBasic KString" | "typeOfData (DBytes v) = TBytes"
| "typeOfData (DTime v) = TTime" | "typeOfData (DOther k) = TOther k"
| "typeOfData DNil = TNil"

text \<open>
  The contents of a struct field: an integer field holds the value \<open>Value.Int()\<close>
  reads, an unsigned one what \<open>Value.Uint()\<close> reads; \<open>VOpaque\<close> is a value of a type
  the converters never write.
\<close>

datatype ('f, 't) fval =
    VBool bool | VInt int | VUint nat | VFloat 'f | VString string | VTime 't
  | VPtr "('f, 't) fval option" | VOpaque

datatype panicReason =
    NilTypeKind | InterfaceOfUnexported | NumFieldOfNonStruct | ElemOfNonPointer
  | TypeOfZeroValue | TypeAssertion | MakeSliceOfNonSlice | SetOfWrongKind

text \<open>
  \<open>ParseError\<close> is an error of \<open>strconv\<close>, \<open>ScannerError\<close> one returned by a field's
  own \<open>Scan\<close>, \<open>Recovered\<close> the error the deferred \<open>recover()\<close> builds from a panic.
\<close>

datatype scanErr =
    ErrNotSupportStructField | ErrNotSupportType | ErrTargetNotSettable
  | ParseError string | ScannerError string
  | ScanError scanErr string string goType goType
  | Recovered panicReason

definition newScanError :: "scanErr \<Rightarrow> string \<Rightarrow> string \<Rightarrow> goType \<Rightarrow> goType \<Rightarrow> scanErr" where
  "newScanError err structName fieldName from to = ScanError err structName fieldName from to"

datatype 'a res = Ok 'a | Err scanErr | Panic panicReason

text \<open>
  What the code takes from \<open>strconv\<close>, \<open>time\<close> and the float conversions of the
  language, with the zero values of the two parameter types.
\<close>

record ('f, 't) env =
  floatOfInt :: "64 word \<Rightarrow> 'f"
  floatOfUint :: "64 word \<Rightarrow> 'f"
  intOfFloat :: "'f \<Rightarrow> 64 word"
  uintOfFloat :: "'f \<Rightarrow> 64 word"
  floatPositive :: "'f \<Rightarrow> bool"
  float32Of :: "'f \<Rightarrow> 'f"
  FormatFloat6 :: "'f \<Rightarrow> string"
  ParseInt :: "string \<Rightarrow> string + 64 word"
  ParseUint :: "string \<Rightarrow> string + 64 word"
  ParseFloat :: "string \<Rightarrow> string + 'f"
  FormatTime :: "'t \<Rightarrow> string"
  zeroFloat :: 'f
  zeroTime :: 't

subsection \<open>The setters of \<open>reflect.Value\<close>\<close>

text \<open>Each setter stores at the width of the field's kind and panics on any other kind.\<close>

definition SetInt :: "Kind \<Rightarrow> 64 word \<Rightarrow> ('f, 't) fval res" where
  "SetInt k x =
     (if k = KInt \<or> k = KInt64 then Ok (VInt (sint x))
      else if k = KInt8 then Ok (VInt (sint (ucast x :: 8 word)))
      else if k = KInt16 then Ok (VInt (sint (ucast x :: 16 word)))
      else if k = KInt32 then Ok (VInt (sint (ucast x :: 32 word)))
      else Panic SetOfWrongKind)"

definition SetUint :: "Kind \<Rightarrow> 64 word \<Rightarrow> ('f, 't) fval res" where
  "SetUint k x =
     (if k = KUint \<or> k = KUint64 \<or> k = KUintptr then Ok (VUint (unat x))
      else if k = KUint8 then Ok (VUint (unat (ucast x :: 8 word)))
      else if k = KUint16 then Ok (VUint (unat (ucast x :: 16 word)))
      else if k = KUint32 then Ok (VUint (unat (ucast x :: 32 word)))
      else Panic SetOfWrongKind)"

definition SetFloat :: "('f, 't) env \<Rightarrow> Kind \<Rightarrow> 'f \<Rightarrow> ('f, 't) fval res" where
  "SetFloat E k x =
     (if k = KFloat32 then Ok (VFloat (float32Of E x))
      else if k = KFloat64 then Ok (VFloat x)
      else Panic SetOfWrongKind)"

definition SetBool :: "Kind \<Rightarrow> bool \<Rightarrow> ('f, 't) fval res" where
  "SetBool k b = (if k = KBool then Ok (VBool b) else Panic SetOfWrongKind)"

definition SetString :: "Kind \<Rightarrow> string \<Rightarrow> ('f, 't) fval res" where
  "SetString k s = (if k = KString then Ok (VString s) else Panic SetOfWrongKind)"

subsection \<open>The converters\<close>

text \<open>\<open>dataValConverted\<close>: an interface holding an int64 or a uint64.\<close>

datatype converted = ConvInt64 "64 word" | ConvUint64 "64 word"

fun normalize :: "('f, 't) dataVal \<Rightarrow> converted option" where
  "normalize (DInt v) = Some (ConvInt64 (scast v))"
| "normalize (DInt8 v) = Some (ConvInt64 (scast v))"
| "normalize (DInt16 v) = Some (ConvInt64 (scast v))"
| "normalize (DInt32 v) = Some (ConvInt64 (scast v))"
| "normalize (DUint v) = Some (ConvUint64 (ucast v))"
| "normalize (DUint8 v) = Some (ConvUint64 (ucast v))"
| "normalize (DUint16 v) = Some (ConvUint64 (ucast v))"
| "normalize (DUint32 v) = Some (ConvUint64 (ucast v))"
| "normalize (DInt64 v) = Some (ConvInt64 v)"
| "normalize (DUint64 v) = Some (ConvUint64 v)"
| "normalize _ = None"

text \<open>The type assertions \<open>dataValConverted.(uint64)\<close> and \<open>dataValConverted.(int64)\<close>.\<close>

fun asUint64 :: "converted \<Rightarrow> 64 word res" where
  "asUint64 (ConvUint64 u) = Ok u"
| "asUint64 (ConvInt64 i) = Panic TypeAssertion"

fun asInt64 :: "converted \<Rightarrow> 64 word res" where
  "asInt64 (ConvInt64 i) = Ok i"
| "asInt64 (ConvUint64 u) = Panic TypeAssertion"

fun bindRes :: "'a res \<Rightarrow> ('a \<Rightarrow> 'b res) \<Rightarrow> 'b res" where
  "bindRes (Ok x) f = f x"
| "bindRes (Err e) f = Err e"
| "bindRes (Panic p) f = Panic p"

definition integerConverter ::
  "('f, 't) env \<Rightarrow> goType \<Rightarrow> ('f, 't) dataVal \<Rightarrow> bool \<Rightarrow> ('f, 't) fval res" where
  "integerConverter E ty dataVal unsigned' =
     (case normalize dataVal of
        None \<Rightarrow> Err ErrNotSupportType
      | Some c \<Rightarrow>
          let k = kindOfType ty in
          if isIntSeriesType k then
            (if unsigned' then bindRes (asUint64 c) (SetInt k) else bindRes (asInt64 c) (SetInt k))
          else if isUintSeriesType k then
            (if unsigned' then bindRes (asUint64 c) (SetUint k) else bindRes (asInt64 c) (SetUint k))
          else if k = KBool then
            (if unsigned' then bindRes (asUint64 c) (\<lambda>u. SetBool k (0 < unat u))
             else bindRes (asInt64 c) (\<lambda>i. SetBool k (0 < sint i)))
          else if k = KString then
            (if unsigned' then bindRes (asUint64 c) (\<lambda>u. SetString k (FormatUint (unat u)))
             else bindRes (asInt64 c) (\<lambda>i. SetString k (FormatInt (sint i))))
          else if k = KFloat64 \<or> k = KFloat32 then
            (if unsigned' then bindRes (asUint64 c) (\<lambda>u. SetFloat E k (floatOfUint E u))
             else bindRes (asInt64 c) (\<lambda>i. SetFloat E k (floatOfInt E i)))
          else Err ErrNotSupportStructField)"

definition floatConverter ::
  "('f, 't) env \<Rightarrow> goType \<Rightarrow> ('f, 't) dataVal \<Rightarrow> ('f, 't) fval res" where
  "floatConverter E ty dataVal =
     (case (case dataVal of DFloat32 v \<Rightarrow> Some v | DFloat64 v \<Rightarrow> Some v | _ \<Rightarrow> None) of
        None \<Rightarrow> Err ErrNotSupportType
      | Some dataValFloat64 \<Rightarrow>
          let k = kindOfType ty in
          if isIntSeriesType k then SetInt k (intOfFloat E dataValFloat64)
          else if isUintSeriesType k then SetUint k (uintOfFloat E dataValFloat64)
          else if k = KBool then SetBool k (floatPositive E dataValFloat64)
          else if k = KString then SetString k (FormatFloat6 E dataValFloat64)
          else if k = KFloat64 \<or> k = KFloat32 then SetFloat E k dataValFloat64
          else Err ErrNotSupportStructField)"

text \<open>
  The body shared by \<open>sliceConverter\<close> and \<open>stringConverter\<close> once the text is in hand.
\<close>

definition parseInto :: "('f, 't) env \<Rightarrow> goType \<Rightarrow> string \<Rightarrow> ('f, 't) fval res" where
  "parseInto E ty dataValStr =
     (let kind = kindOfType ty in
      if kind = KString then SetString kind dataValStr
      else if isIntSeriesType kind then
        (case ParseInt E dataValStr of Inl e \<Rightarrow> Err (ParseError e) | Inr i \<Rightarrow> SetInt kind i)
      else if isUintSeriesType kind then
        (case ParseUint E dataValStr of Inl e \<Rightarrow> Err (ParseError e) | Inr u \<Rightarrow> SetUint kind u)
      else if isFloatSeriesType kind then
        (case ParseFloat E dataValStr of Inl e \<Rightarrow> Err (ParseError e) | Inr x \<Rightarrow> SetFloat E kind x)
      else if kind = KBool then
        (case ParseInt E dataValStr of
           Inl e \<Rightarrow> Err (ParseError e)
         | Inr dataValBool \<Rightarrow> SetBool kind (0 < sint dataValBool))
      else Err ErrNotSupportStructField)"

text \<open>\<open>BytesToString\<close> is declared outside these files; it reads the bytes as a string.\<close>

definition sliceConverter ::
  "('f, 't) env \<Rightarrow> goType \<Rightarrow> ('f, 't) dataVal \<Rightarrow> ('f, 't) fval res" where
  "sliceConverter E ty dataVal =
     (case dataVal of DBytes dataValSlice \<Rightarrow> parseInto E ty dataValSlice | _ \<Rightarrow> Err ErrNotSupportType)"

definition stringConverter ::
  "('f, 't) env \<Rightarrow> goType \<Rightarrow> ('f, 't) dataVal \<Rightarrow> ('f, 't) fval res" where
  "stringConverter E ty dataVal =
     (case dataVal of DString dataValStr \<Rightarrow> parseInto E ty dataValStr | _ \<Rightarrow> Err ErrNotSupportType)"

text \<open>
  \<open>scan\<close>: the new contents of the field of type \<open>ty\<close>. \<open>reflect.TypeOf(nil)\<close> is the
  nil \<open>Type\<close>, whose \<open>Kind()\<close> panics.
\<close>

definition scan :: "('f, 't) env \<Rightarrow> goType \<Rightarrow> ('f, 't) dataVal \<Rightarrow> ('f, 't) fval res" where
  "scan E ty dataVal =
     (if typeOfData dataVal = TNil then Panic NilTypeKind
      else
        let kind = kindOfType (typeOfData dataVal) in
        if isIntSeriesType kind then integerConverter E ty dataVal False
        else if isUintSeriesType kind then integerConverter E ty dataVal True
        else if isFloatSeriesType kind then floatConverter E ty dataVal
        else if kind = KSlice then sliceConverter E ty dataVal
        else if kind = KString then stringConverter E ty dataVal
        else
          (case dataVal of
             DTime dataValTime \<Rightarrow>
               if kindOfType ty = KString then SetString (kindOfType ty) (FormatTime E dataValTime)
               else if ty = TTime then Ok (VTime dataValTime)
               else Err ErrNotSupportType
           | _ \<Rightarrow> Err ErrNotSupportType))"


subsection \<open>Struct fields and targets\<close>

text \<open>
  A struct field as \<open>reflect\<close> shows it: its name, its tag as the list of key/value
  pairs (\<open>Tag.Lookup\<close> returns the first value of a key), its type, whether it is
  exported, and the two capabilities a pointer to it may have: \<open>sql.Scanner\<close> (the
  result of \<open>Scan\<close>: an error or none, and the field afterwards) and \<open>TypeIfe\<close> (the
  field after \<open>BindModel\<close>). Both methods belong to the field's type, outside these
  files, and act on their receiver only. Pointer types are exactly the \<open>TPtr\<close> ones.
\<close>

record ('f, 't) structField =
  fieldName :: string
  fieldTag :: "(string \<times> string) list"
  fieldType :: goType
  fieldExported :: bool
  fieldScanner :: "(('f, 't) fval \<Rightarrow> ('f, 't) dataVal \<Rightarrow> scanErr option \<times> ('f, 't) fval) option"
  fieldTypeIfe :: "(('f, 't) fval \<Rightarrow> ('f, 't) fval) option"

text \<open>
  The type a decode target points to (a struct type with its name and fields, a
  pointer type, anything else) and a value of such a type: a struct value is its fields
  with their contents, a pointer is nil or refers to a value.
\<close>

datatype ('f, 't) objType =
    OTStruct string "('f, 't) structField list"
  | OTPtr "('f, 't) objType"
  | OTOther

datatype ('f, 't) obj =
    ObjStruct string "(('f, 't) structField \<times> ('f, 't) fval) list"
  | ObjPtr "('f, 't) objType" "('f, 't) obj option"
  | ObjOther

text \<open>The argument \<open>target interface{}\<close> of \<open>ScanStruct\<close>.\<close>

datatype ('f, 't) target = NotPointer | NilPointer | PointerTo "('f, 't) obj"

definition zeroOfKind :: "('f, 't) env \<Rightarrow> Kind \<Rightarrow> ('f, 't) fval" where
  "zeroOfKind E k =
     (if k = KBool then VBool False
      else if isIntSeriesType k then VInt 0
      else if isUintSeriesType k \<or> k = KUintptr then VUint 0
      else if isFloatSeriesType k then VFloat (zeroFloat E)
      else if k = KString then VString []
      else VOpaque)"

fun zeroVal :: "('f, 't) env \<Rightarrow> goType \<Rightarrow> ('f, 't) fval" where
  "zeroVal E (TBasic k) = zeroOfKind E k"
| "zeroVal E TBytes = VOpaque"
| "zeroVal E TTime = VTime (zeroTime E)"
| "zeroVal E (TPtr t) = VPtr None"
| "zeroVal E (TOther k) = zeroOfKind E k"
| "zeroVal E TNil = VOpaque"

text \<open>\<open>reflect.New\<close> of a type: the zero value the new pointer refers to.\<close>

fun zeroObj :: "('f, 't) env \<Rightarrow> ('f, 't) objType \<Rightarrow> ('f, 't) obj" where
  "zeroObj E (OTStruct name fs) = ObjStruct name (map (\<lambda>f. (f, zeroVal E (fieldType f))) fs)"
| "zeroObj E (OTPtr t) = ObjPtr t None"
| "zeroObj E OTOther = ObjOther"

subsection \<open>ScanStruct\<close>

fun IndexByte :: "string \<Rightarrow> char \<Rightarrow> nat option" where
  "IndexByte [] c = None"
| "IndexByte (x # xs) c = (if x = c then Some 0 else map_option Suc (IndexByte xs c))"

text \<open>Lines 90 to 96: the name under which the raw value is looked up.\<close>

definition tagLookupName :: "string \<Rightarrow> string" where
  "tagLookupName tagValue =
     (case IndexByte tagValue (CHR '','') of
        None \<Rightarrow> tagValue
      | Some idx \<Rightarrow>
          if take idx tagValue = ''pk'' then drop (idx + 1) tagValue else take idx tagValue)"

text \<open>
  One round of the loop over the fields: the error that ends \<open>ScanStruct\<close> at this
  field, if any, and the field's contents afterwards. \<open>Addr().Interface()\<close> panics on
  an unexported field; a field of an addressable struct is settable exactly when it is
  exported.
\<close>

definition scanField ::
  "('f, 't) env \<Rightarrow> (string \<rightharpoonup> ('f, 't) dataVal) \<Rightarrow> string \<Rightarrow> string \<Rightarrow> bool \<Rightarrow>
   ('f, 't) structField \<Rightarrow> ('f, 't) fval \<Rightarrow> scanErr option \<times> ('f, 't) fval" where
  "scanField E data targetName tagName bindModel f v =
     (case map_of (fieldTag f) tagName of
        None \<Rightarrow> (None, v)
      | Some tagValue0 \<Rightarrow>
          let tagValue = tagLookupName tagValue0 in
          if \<not> fieldExported f then (Some (Recovered InterfaceOfUnexported), v)
          else
            (case data tagValue of
               Some dataVal \<Rightarrow>
                 if fieldExported f then
                   (case fieldScanner f of
                      Some scanner \<Rightarrow>
                        let (err, v1) = scanner v dataVal;
                            v2 = (if bindModel
                                  then (case fieldTypeIfe f of Some typer \<Rightarrow> typer v1 | None \<Rightarrow> v1)
                                  else v1)
                        in (map_option
                              (\<lambda>e. newScanError e targetName (fieldName f) (typeOfData dataVal) (fieldType f))
                              err, v2)
                    | None \<Rightarrow>
                        (case fieldType f of
                           TPtr t \<Rightarrow>
                             (case scan E t dataVal of
                                Ok x \<Rightarrow> (None, VPtr (Some x))
                              | Err e \<Rightarrow>
                                  (Some (newScanError e targetName (fieldName f) (typeOfData dataVal) t),
                                   VPtr (Some (zeroVal E t)))
                              | Panic p \<Rightarrow> (Some (Recovered p), VPtr (Some (zeroVal E t))))
                         | _ \<Rightarrow>
                             (case scan E (fieldType f) dataVal of
                                Ok x \<Rightarrow> (None, x)
                              | Err e \<Rightarrow>
                                  (Some (newScanError e targetName (fieldName f) (typeOfData dataVal)
                                           (fieldType f)), v)
                              | Panic p \<Rightarrow> (Some (Recovered p), v))))
                 else
                   (Some (newScanError ErrTargetNotSettable targetName (fieldName f)
                            (typeOfData dataVal) (fieldType f)), v)
             | None \<Rightarrow>
                 if bindModel
                 then (case fieldTypeIfe f of Some typer \<Rightarrow> (None, typer v) | None \<Rightarrow> (None, v))
                 else (None, v)))"

text \<open>
  The loop \<open>for i := 0; i < targetType.NumField(); i++\<close>: it stops at the first error
  or panic, and what it has written so far stays written.
\<close>

fun scanFields ::
  "('f, 't) env \<Rightarrow> (string \<rightharpoonup> ('f, 't) dataVal) \<Rightarrow> string \<Rightarrow> string \<Rightarrow> bool \<Rightarrow>
   (('f, 't) structField \<times> ('f, 't) fval) list \<Rightarrow>
   scanErr option \<times> (('f, 't) structField \<times> ('f, 't) fval) list" where
  "scanFields E data targetName tagName bindModel [] = (None, [])"
| "scanFields E data targetName tagName bindModel ((f, v) # rest) =
     (case scanField E data targetName tagName bindModel f v of
        (Some err, v') \<Rightarrow> (Some err, (f, v') # rest)
      | (None, v') \<Rightarrow>
          (case scanFields E data targetName tagName bindModel rest of
             (err, rest') \<Rightarrow> (err, (f, v') # rest')))"

fun typeDepth :: "('f, 't) objType \<Rightarrow> nat" where
  "typeDepth (OTPtr t) = Suc (typeDepth t)"
| "typeDepth _ = 0"

fun objDepth :: "('f, 't) obj \<Rightarrow> nat" where
  "objDepth (ObjPtr t cur) = Suc (typeDepth t)"
| "objDepth _ = 0"

text \<open>
  \<open>ScanStruct\<close> from line 76 on, for a \<open>target\<close> that points to the given value: a
  pointer is decoded into a new value of its element type and set only on success, a
  struct field by field, and \<open>NumField\<close> panics on anything else. The deferred
  \<open>recover()\<close> turns the panic into the returned error.
\<close>

function scanObj ::
  "('f, 't) env \<Rightarrow> (string \<rightharpoonup> ('f, 't) dataVal) \<Rightarrow> ('f, 't) obj \<Rightarrow> string \<Rightarrow> bool \<Rightarrow>
   scanErr option \<times> ('f, 't) obj" where
  "scanObj E data (ObjPtr t cur) tagName bindModel =
     (case scanObj E data (zeroObj E t) tagName bindModel of
        (None, targetValueObj) \<Rightarrow> (None, ObjPtr t (Some targetValueObj))
      | (Some err, _) \<Rightarrow> (Some err, ObjPtr t cur))"
| "scanObj E data (ObjStruct targetName fvs) tagName bindModel =
     (case scanFields E data targetName tagName bindModel fvs of
        (err, fvs') \<Rightarrow> (err, ObjStruct targetName fvs'))"
| "scanObj E data ObjOther tagName bindModel = (Some (Recovered NumFieldOfNonStruct), ObjOther)"
  by pat_completeness auto
termination
  by (relation "measure (\<lambda>(E, data, obj, tagName, bindModel). objDepth obj)")
     (auto, case_tac t, auto)

definition ScanStruct ::
  "('f, 't) env \<Rightarrow> (string \<rightharpoonup> ('f, 't) dataVal) \<Rightarrow> ('f, 't) target \<Rightarrow> string \<Rightarrow> bool \<Rightarrow>
   scanErr option \<times> ('f, 't) target" where
  "ScanStruct E data target tagName bindModel =
     (case target of
        NotPointer \<Rightarrow> (Some (Recovered ElemOfNonPointer), NotPointer)
      | NilPointer \<Rightarrow> (Some (Recovered TypeOfZeroValue), NilPointer)
      | PointerTo obj \<Rightarrow>
          (case scanObj E data obj tagName bindModel of (err, obj') \<Rightarrow> (err, PointerTo obj')))"

subsection \<open>ScanStructSlice\<close>

text \<open>
  The argument \<open>target\<close> of \<open>ScanStructSlice\<close>: when it points to a slice, the slice's
  element type and its current elements.
\<close>

datatype ('f, 't) sliceTarget =
    SNotPointer | SNilPointer | SPointerToOther
  | SPointerToSlice "('f, 't) objType" "('f, 't) obj list"

text \<open>The loop over the rows, with \<open>targetValueSlice\<close> as built so far.\<close>

fun scanRows ::
  "('f, 't) env \<Rightarrow> (string \<rightharpoonup> ('f, 't) dataVal) list \<Rightarrow> ('f, 't) objType \<Rightarrow> string \<Rightarrow> bool \<Rightarrow>
   ('f, 't) obj list \<Rightarrow> scanErr + ('f, 't) obj list" where
  "scanRows E [] elemType tagName bindModel targetValueSlice = Inr targetValueSlice"
| "scanRows E (row # rows) elemType tagName bindModel targetValueSlice =
     (case ScanStruct E row (PointerTo (zeroObj E elemType)) tagName bindModel of
        (Some err, _) \<Rightarrow> Inl err
      | (None, PointerTo targetObj) \<Rightarrow>
          scanRows E rows elemType tagName bindModel (targetValueSlice @ [targetObj])
      | (None, _) \<Rightarrow> Inl (Recovered ElemOfNonPointer))"

text \<open>
  The result is the returned error, if any, and the target afterwards. \<open>Elem()\<close> of a
  nil pointer is the zero \<open>Value\<close>, which is not settable; \<open>Elem()\<close> of a non-pointer
  and \<open>MakeSlice\<close> of a non-slice type panic.
\<close>

definition ScanStructSlice ::
  "('f, 't) env \<Rightarrow> (string \<rightharpoonup> ('f, 't) dataVal) list \<Rightarrow> ('f, 't) sliceTarget \<Rightarrow> string \<Rightarrow> bool \<Rightarrow>
   scanErr option \<times> ('f, 't) sliceTarget" where
  "ScanStructSlice E data target tagName bindModel =
     (case target of
        SNotPointer \<Rightarrow> (Some (Recovered ElemOfNonPointer), SNotPointer)
      | SNilPointer \<Rightarrow> (Some ErrTargetNotSettable, SNilPointer)
      | SPointerToOther \<Rightarrow> (Some (Recovered MakeSliceOfNonSlice), SPointerToOther)
      | SPointerToSlice elemType old \<Rightarrow>
          (case scanRows E data elemType tagName bindModel [] of
             Inl err \<Rightarrow> (Some err, SPointerToSlice elemType old)
           | Inr targetValueSlice \<Rightarrow> (None, SPointerToSlice elemType targetValueSlice)))"

subsection \<open>Integer sources\<close>

text \<open>
  The integer an integer-family source value stands for: a signed type read as two's
  complement, an unsigned one as a natural number. It is \<open>None\<close> for every other value.
\<close>

fun integerValue :: "('f, 't) dataVal \<Rightarrow> int option" where
  "integerValue (DInt v) = Some (sint v)"
| "integerValue (DInt8 v) = Some (sint v)"
| "integerValue (DInt16 v) = Some (sint v)"
| "integerValue (DInt32 v) = Some (sint v)"
| "integerValue (DInt64 v) = Some (sint v)"
| "integerValue (DUint v) = Some (uint v)"
| "integerValue (DUint8 v) = Some (uint v)"
| "integerValue (DUint16 v) = Some (uint v)"
| "integerValue (DUint32 v) = Some (uint v)"
| "integerValue (DUint64 v) = Some (uint v)"
| "integerValue _ = None"

section \<open>Sample inputs\<close>

text \<open>
  An environment to run the decoder on inputs that hold no float, no time and no text
  to parse: both parameter types are the one-point type and every parse fails.
\<close>

definition sampleEnv :: "(unit, unit) env" where
  "sampleEnv =
     \<lparr>floatOfInt = (\<lambda>i. ()), floatOfUint = (\<lambda>u. ()),
      intOfFloat = (\<lambda>x. 0), uintOfFloat = (\<lambda>x. 0),
      floatPositive = (\<lambda>x. False), float32Of = (\<lambda>x. x),
      FormatFloat6 = (\<lambda>x. ''0.000000''),
      ParseInt = (\<lambda>s. Inl ''invalid syntax''),
      ParseUint = (\<lambda>s. Inl ''invalid syntax''),
      ParseFloat = (\<lambda>s. Inl ''invalid syntax''),
      FormatTime = (\<lambda>t. ''0001-01-01 00:00:00''),
      zeroFloat = (), zeroTime = ()\<rparr>"

text \<open>An exported field of a type with neither a \<open>Scan\<close> nor a \<open>BindModel\<close> method.\<close>

definition plainField :: "string \<Rightarrow> (string \<times> string) list \<Rightarrow> goType \<Rightarrow> (unit, unit) structField" where
  "plainField name tag ty =
     \<lparr>fieldName = name, fieldTag = tag, fieldType = ty, fieldExported = True,
      fieldScanner = None, fieldTypeIfe = None\<rparr>"

text \<open>A row type with one integer field tagged \<open>db:"id"\<close>.\<close>

definition sampleRowType :: "(unit, unit) objType" where
  "sampleRowType = OTStruct ''T'' [plainField ''Id'' [(''db'', ''id'')] (TBasic KInt)]"


section \<open>Properties of the cache key\<close>

lemma buildLoop_append:
  "buildLoop f acc (xs @ ys) =
     (case buildLoop f acc xs of Inl e \<Rightarrow> Inl e | Inr k \<Rightarrow> buildLoop f k ys)"
  by (induction xs arbitrary: acc) (auto split: sum.splits)

lemma FormatUint_small: "n < 10 \<Longrightarrow> FormatUint n = [digit_char n]"
  by (simp add: FormatUint.simps)

lemma FormatUint_step:
  "10 \<le> n \<Longrightarrow> FormatUint n = FormatUint (n div 10) @ [digit_char (n mod 10)]"
  by (subst FormatUint.simps) simp

lemma digit_char_simps:
  "digit_char 0 = CHR ''0''" "digit_char 1 = CHR ''1''" "digit_char 2 = CHR ''2''"
  "digit_char 3 = CHR ''3''" "digit_char 4 = CHR ''4''" "digit_char 5 = CHR ''5''"
  "digit_char 6 = CHR ''6''" "digit_char 7 = CHR ''7''" "digit_char 8 = CHR ''8''"
  "digit_char 9 = CHR ''9''" "digit_char (Suc 0) = CHR ''1''"
  by (simp_all add: digit_char_def)

lemma writeIndex_delim:
  "writeIndex f v = Inr w \<Longrightarrow> \<exists>r. w = CHR 0x60 # r"
  by (induction f v rule: writeIndex.induct) (auto split: if_splits)

lemma buildLoop_concat:
  "map (writeIndex f) xs = map Inr ws \<Longrightarrow> buildLoop f acc xs = Inr (acc @ concat ws)"
  by (induction xs arbitrary: acc ws) auto

lemma takeWhile_delim:
  assumes "c \<notin> set r" "rest = [] \<or> hd rest = c"
  shows "takeWhile (\<lambda>x. x \<noteq> c) (r @ rest) = r"
proof -
  have "takeWhile (\<lambda>x. x \<noteq> c) rest = []"
    using assms(2) by (cases rest) auto
  moreover have "takeWhile (\<lambda>x. x \<noteq> c) (r @ rest) = r @ takeWhile (\<lambda>x. x \<noteq> c) rest"
    using assms(1) by (intro takeWhile_append2) auto
  ultimately show ?thesis by simp
qed

lemma hd_concat_delim:
  "\<forall>w \<in> set ws. \<exists>r. w = c # r \<Longrightarrow> concat ws = [] \<or> hd (concat ws) = c"
  by (cases ws) auto

lemma concat_delim_inj:
  "\<forall>w \<in> set ws. \<exists>r. w = c # r \<and> c \<notin> set r \<Longrightarrow>
   \<forall>w \<in> set ws'. \<exists>r. w = c # r \<and> c \<notin> set r \<Longrightarrow>
   concat ws = concat ws' \<Longrightarrow> ws = ws'"
proof (induction ws arbitrary: ws')
  case Nil
  then show ?case by (cases ws') auto
next
  case (Cons w ws)
  from Cons.prems(1) obtain r where w: "w = c # r" "c \<notin> set r" by auto
  show ?case
  proof (cases ws')
    case Nil
    with Cons.prems(3) w show ?thesis by simp
  next
    case (Cons w' ws'')
    with Cons.prems(2) obtain r' where w': "w' = c # r'" "c \<notin> set r'" by auto
    have tails: "r @ concat ws = r' @ concat ws''"
      using Cons.prems(3) w w' Cons by simp
    have a: "concat ws = [] \<or> hd (concat ws) = c"
      using Cons.prems(1) by (intro hd_concat_delim) auto
    have b: "concat ws'' = [] \<or> hd (concat ws'') = c"
      using Cons.prems(2) Cons by (intro hd_concat_delim) auto
    have "r = takeWhile (\<lambda>x. x \<noteq> c) (r @ concat ws)"
      using takeWhile_delim [OF w(2) a] by simp
    also have "\<dots> = r'"
      using takeWhile_delim [OF w'(2) b] tails by simp
    finally have rr: "r = r'" .
    with tails have "concat ws = concat ws''" by simp
    moreover have "\<forall>w \<in> set ws. \<exists>r. w = c # r \<and> c \<notin> set r"
      using Cons.prems(1) by simp
    moreover have "\<forall>w \<in> set ws''. \<exists>r. w = c # r \<and> c \<notin> set r"
      using Cons.prems(2) Cons by simp
    ultimately have "ws = ws''" by (rule Cons.IH [rotated 2])
    with rr w w' Cons show ?thesis by simp
  qed
qed

lemma buildKey_rendering:
  assumes "\<forall>v \<in> set xs \<union> set ys. \<exists>r. writeIndex f v = Inr (CHR 0x60 # r) \<and> CHR 0x60 \<notin> set r"
  shows "(\<exists>k. buildKey f t xs = Inr k) \<and>
         (buildKey f t xs = buildKey f t ys \<longleftrightarrow> map (writeIndex f) xs = map (writeIndex f) ys)"
proof -
  define ws where "ws = map (\<lambda>v. projr (writeIndex f v)) xs"
  define ws' where "ws' = map (\<lambda>v. projr (writeIndex f v)) ys"
  have p: "writeIndex f v = Inr (projr (writeIndex f v))" if "v \<in> set xs \<union> set ys" for v
  proof -
    from assms that obtain r where "writeIndex f v = Inr (CHR 0x60 # r)" by blast
    then show ?thesis by simp
  qed
  have m: "map (writeIndex f) xs = map Inr ws" "map (writeIndex f) ys = map Inr ws'"
    using p unfolding ws_def ws'_def by auto
  have k: "buildKey f t xs = Inr (t @ concat ws)" "buildKey f t ys = Inr (t @ concat ws')"
    using m by (simp_all add: buildKey_def buildLoop_concat)
  have q: "\<exists>r. projr (writeIndex f v) = CHR 0x60 # r \<and> CHR 0x60 \<notin> set r"
    if "v \<in> set xs \<union> set ys" for v
  proof -
    from assms that obtain r where "writeIndex f v = Inr (CHR 0x60 # r)" "CHR 0x60 \<notin> set r"
      by blast
    then show ?thesis by simp
  qed
  have d: "\<forall>w \<in> set ws. \<exists>r. w = CHR 0x60 # r \<and> CHR 0x60 \<notin> set r"
    "\<forall>w \<in> set ws'. \<exists>r. w = CHR 0x60 # r \<and> CHR 0x60 \<notin> set r"
    using q unfolding ws_def ws'_def by auto
  have "concat ws = concat ws' \<longleftrightarrow> ws = ws'"
    using concat_delim_inj [OF d] by auto
  moreover have "ws = ws' \<longleftrightarrow> map (writeIndex f) xs = map (writeIndex f) ys"
    using m by (auto simp: inj_map_eq_map)
  ultimately show ?thesis using k by simp
qed

lemma writeIndex_IString_inj:
  "s \<noteq> [] \<Longrightarrow> s' \<noteq> [] \<Longrightarrow> writeIndex f (IString s) = writeIndex f (IString s') \<Longrightarrow> s = s'"
  by simp

lemma map_IString_inj:
  "\<forall>s \<in> set ss \<union> set ss'. s \<noteq> [] \<Longrightarrow>
   map (writeIndex f) (map IString ss) = map (writeIndex f) (map IString ss') \<Longrightarrow> ss = ss'"
proof (induction ss arbitrary: ss')
  case Nil
  then show ?case by simp
next
  case (Cons s ss)
  then obtain s' ss'' where ss': "ss' = s' # ss''" by (cases ss') auto
  with Cons.prems have "s = s'" by simp
  moreover have "ss = ss''"
    using Cons.prems ss' by (intro Cons.IH) auto
  ultimately show ?case using ss' by simp
qed

lemma buildKey_text:
  assumes a: "\<forall>s \<in> set ss \<union> set ss'. s \<noteq> [] \<and> CHR 0x60 \<notin> set s"
  shows "(\<exists>k. buildKey f t (map IString ss) = Inr k) \<and>
      (buildKey f t (map IString ss) = buildKey f t (map IString ss') \<longrightarrow> ss = ss')"
proof -
  have h: "\<forall>v \<in> set (map IString ss) \<union> set (map IString ss').
      \<exists>r. writeIndex f v = Inr (CHR 0x60 # r) \<and> CHR 0x60 \<notin> set r"
    using a by auto
  have ne: "\<forall>s \<in> set ss \<union> set ss'. s \<noteq> []" using a by blast
  show ?thesis
    using buildKey_rendering [OF h, of t] map_IString_inj [OF ne, of f] by blast
qed

lemma buildLoop_fails:
  "IString [] \<in> set xs \<Longrightarrow> \<exists>err. buildLoop f acc xs = Inl err"
  by (induction xs arbitrary: acc) (auto split: sum.splits)

text \<open>
  C7, as the code has it. A tuple that contains an empty string never gets a key. The
  error is the one of the first value the loop cannot write, whatever follows it: it
  is the empty-string error whenever the values before the empty string are written
  without error, and the error of an earlier unsupported value or failing \<open>Valuer\<close>
  otherwise.
\<close>

theorem buildKey_empty_string:
  "(IString [] \<in> set indexes \<longrightarrow> (\<exists>err. buildKey fmtFloat tableName indexes = Inl err)) \<and>
   (buildKey fmtFloat tableName pre = Inr k \<longrightarrow>
      buildKey fmtFloat tableName (pre @ IString [] # post) =
        Inl (ModelRuntimeError ''the index key can not be empty string'')) \<and>
   (buildKey fmtFloat tableName pre = Inr k \<and> writeIndex fmtFloat v = Inl e \<longrightarrow>
      buildKey fmtFloat tableName (pre @ v # post) = Inl e)"
  by (simp add: buildKey_def buildLoop_append buildLoop_fails)

theorem buildKey_empty_string_witness:
  "(\<exists>err. buildKey FormatUint ''users'' [IInt 7, IString [], IString ''x''] = Inl err) \<and>
   buildKey FormatUint ''users'' [IInt 7] = Inr ''users`7'' \<and>
   buildKey FormatUint ''users'' ([IInt 7] @ IString [] # [IOther, IString []]) =
     Inl (ModelRuntimeError ''the index key can not be empty string'') \<and>
   writeIndex FormatUint (IValuerErr ''boom'') = Inl (ModelRuntimeError ''boom'') \<and>
   buildKey FormatUint ''users'' ([IInt 7] @ IValuerErr ''boom'' # [IOther, IString []]) =
     Inl (ModelRuntimeError ''boom'')"
  using buildKey_empty_string [where indexes = "[IInt 7, IString [], IString ''x'']"
      and fmtFloat = FormatUint and tableName = "''users''" and pre = "[IInt 7]"
      and k = "''users`7''" and post = "[IOther, IString []]" and v = "IValuerErr ''boom''"
      and e = "ModelRuntimeError ''boom''"]
  by (simp add: buildKey_def FormatInt_def FormatUint_small digit_char_simps)

text \<open>
  C7 as stated fails: with an unsupported value before the empty string, the error is
  "not support index key".
\<close>

theorem buildKey_empty_string_counterexample:
  "buildKey FormatUint ''users'' [IOther, IString []] =
     Inl (ModelRuntimeError ''not support index key'') \<and>
   buildKey FormatUint ''users'' [IOther, IString []] \<noteq>
     Inl (ModelRuntimeError ''the index key can not be empty string'')"
  by (simp add: buildKey_def)

text \<open>
  C8, as the code has it. \<open>buildKey\<close> is a function of the table name and the tuple.
  For one table name and two tuples whose values are all written without error and
  without a backtick in the written text, the keys are equal exactly when the tuples
  have the same length and the same written text at every position; so two tuples of
  non-empty texts without a backtick that get the same key are equal.
\<close>

theorem buildKey_injective:
  "(t = t' \<and> xs = ys \<longrightarrow> buildKey f t xs = buildKey f t' ys) \<and>
   ((\<forall>v \<in> set xs \<union> set ys. \<exists>r. writeIndex f v = Inr (CHR 0x60 # r) \<and> CHR 0x60 \<notin> set r) \<longrightarrow>
      (\<exists>k. buildKey f t xs = Inr k) \<and>
      (buildKey f t xs = buildKey f t ys \<longleftrightarrow> map (writeIndex f) xs = map (writeIndex f) ys)) \<and>
   ((\<forall>s \<in> set ss \<union> set ss'. s \<noteq> [] \<and> CHR 0x60 \<notin> set s) \<longrightarrow>
      (\<exists>k. buildKey f t (map IString ss) = Inr k) \<and>
      (buildKey f t (map IString ss) = buildKey f t (map IString ss') \<longrightarrow> ss = ss'))"
proof (intro conjI)
  show "t = t' \<and> xs = ys \<longrightarrow> buildKey f t xs = buildKey f t' ys" by simp
  show "(\<forall>v \<in> set xs \<union> set ys. \<exists>r. writeIndex f v = Inr (CHR 0x60 # r) \<and> CHR 0x60 \<notin> set r) \<longrightarrow>
      (\<exists>k. buildKey f t xs = Inr k) \<and>
      (buildKey f t xs = buildKey f t ys \<longleftrightarrow> map (writeIndex f) xs = map (writeIndex f) ys)"
    using buildKey_rendering [of xs ys f t] by blast
  show "(\<forall>s \<in> set ss \<union> set ss'. s \<noteq> [] \<and> CHR 0x60 \<notin> set s) \<longrightarrow>
      (\<exists>k. buildKey f t (map IString ss) = Inr k) \<and>
      (buildKey f t (map IString ss) = buildKey f t (map IString ss') \<longrightarrow> ss = ss')"
    using buildKey_text [of ss ss' f t] by blast
qed

theorem buildKey_injective_witness:
  "buildKey FormatUint ''users'' (map IString [''a'', ''b'']) = Inr ''users`a`b'' \<and>
   buildKey FormatUint ''users'' (map IString [''a'', ''b'']) \<noteq>
     buildKey FormatUint ''users'' (map IString [''a'', ''c'']) \<and>
   buildKey FormatUint ''users'' [IInt 7, IString ''x''] =
     buildKey FormatUint ''users'' [IString ''7'', IBytes ''x'']"
  using buildKey_injective [of "''users''" "''users''" "[IInt 7, IString ''x'']"
      "[IString ''7'', IBytes ''x'']" FormatUint "[''a'', ''b'']" "[''a'', ''c'']"]
  by (simp add: buildKey_def FormatInt_def FormatUint_small digit_char_simps)

text \<open>
  C8 as stated fails: two different tuples of non-empty texts get the same key when a
  text contains the backtick.
\<close>

theorem buildKey_injective_counterexample:
  "buildKey FormatUint ''t'' [IString ''a`b'', IString ''c''] =
     buildKey FormatUint ''t'' [IString ''a'', IString ''b`c''] \<and>
   [IString ''a`b'', IString ''c''] \<noteq> [IString ''a'', IString ''b`c'' :: nat index_value] \<and>
   buildKey FormatUint ''t'' [IString ''a`b'', IString ''c''] = Inr ''t`a`b`c''"
  by (simp add: buildKey_def)

text \<open>
  C10. After values that were written without error, an empty byte sequence adds the
  backtick alone and the loop goes on, where an empty string ends it with the error;
  and a non-empty string and the byte sequence of the same bytes give the same result
  at any position.
\<close>

theorem buildKey_bytes:
  "(buildKey f t pre = Inr k \<longrightarrow>
      buildKey f t (pre @ [IBytes []]) = Inr (k @ [CHR 0x60]) \<and>
      buildKey f t (pre @ IBytes b # post) = buildKey f (k @ CHR 0x60 # b) post \<and>
      buildKey f t (pre @ IString [] # post) =
        Inl (ModelRuntimeError ''the index key can not be empty string'')) \<and>
   (b \<noteq> [] \<longrightarrow> buildKey f t (pre @ IString b # post) = buildKey f t (pre @ IBytes b # post))"
  by (simp add: buildKey_def buildLoop_append split: sum.splits)

theorem buildKey_bytes_witness:
  "buildKey FormatUint ''users'' [IInt 7] = Inr ''users`7'' \<and>
   buildKey FormatUint ''users'' ([IInt 7] @ [IBytes []]) = Inr ''users`7`'' \<and>
   buildKey FormatUint ''users'' ([IInt 7] @ IBytes ''ab'' # [IInt 7]) = Inr ''users`7`ab`7'' \<and>
   buildKey FormatUint ''users'' ([IInt 7] @ IString [] # [IInt 7]) =
     Inl (ModelRuntimeError ''the index key can not be empty string'') \<and>
   buildKey FormatUint ''users'' ([IInt 7] @ IString ''ab'' # [IInt 7]) =
     buildKey FormatUint ''users'' ([IInt 7] @ IBytes ''ab'' # [IInt 7])"
  using buildKey_bytes [of FormatUint "''users''" "[IInt 7]" "''users`7''" "''ab''" "[IInt 7]"]
  by (simp add: buildKey_def FormatInt_def FormatUint_small digit_char_simps)


section \<open>Properties of the LRU cache\<close>

subsection \<open>The list operations on a list of distinct elements\<close>

lemma node_unique:
  "distinct (map fst l) \<Longrightarrow> (e, k) \<in> set l \<Longrightarrow> n \<in> set l \<Longrightarrow> fst n = e \<Longrightarrow> n = (e, k)"
  by (cases n) (auto dest: eq_key_imp_eq_value)

lemma key_unique:
  "distinct (map snd l) \<Longrightarrow> (e, k) \<in> set l \<Longrightarrow> n \<in> set l \<Longrightarrow> snd n = k \<Longrightarrow> n = (e, k)"
  by (induction l) (auto simp: image_iff)

lemma filter_elem_eq_key:
  "distinct (map fst l) \<Longrightarrow> distinct (map snd l) \<Longrightarrow> (e, k) \<in> set l \<Longrightarrow>
   filter (\<lambda>n. fst n \<noteq> e) l = filter (\<lambda>n. snd n \<noteq> k) l"
proof (rule filter_cong)
  fix n
  assume a: "distinct (map fst l)" "distinct (map snd l)" "(e, k) \<in> set l" "n \<in> set l"
  show "(fst n \<noteq> e) = (snd n \<noteq> k)"
    using node_unique [OF a(1) a(3) a(4)] key_unique [OF a(2) a(3) a(4)]
    by (metis fst_conv snd_conv)
qed simp

lemma find_elem:
  "distinct (map fst l) \<Longrightarrow> (e, k) \<in> set l \<Longrightarrow> find (\<lambda>n. fst n = e) l = Some (e, k)"
  by (induction l) (auto simp: image_iff)

lemma filter_last_elem:
  "distinct (map fst l) \<Longrightarrow> l \<noteq> [] \<Longrightarrow> fst (last l) = e \<Longrightarrow>
   filter (\<lambda>n. fst n \<noteq> e) l @ [last l] = l"
proof (induction l rule: rev_induct)
  case Nil
  then show ?case by simp
next
  case (snoc x xs)
  from snoc.prems(1) have "\<forall>n \<in> set xs. fst n \<noteq> fst x" by (auto simp: image_iff)
  then have "filter (\<lambda>n. fst n \<noteq> fst x) xs = xs" by (simp add: filter_id_conv)
  with snoc.prems(3) show ?case by simp
qed

lemma MoveToBack_elem:
  assumes "distinct (map fst l)" "(e, k) \<in> set l"
  shows "MoveToBack e l = filter (\<lambda>n. fst n \<noteq> e) l @ [(e, k)]"
proof (cases "fst (last l) = e")
  case True
  from assms have ne: "l \<noteq> []" by auto
  then have "last l \<in> set l" by simp
  with assms True have "last l = (e, k)" by (intro node_unique)
  with filter_last_elem [OF assms(1) ne True] assms True show ?thesis
    by (simp add: MoveToBack_def find_elem)
next
  case False
  with assms show ?thesis by (simp add: MoveToBack_def find_elem)
qed

lemma Remove_hd:
  "distinct (map fst (n # l)) \<Longrightarrow> Remove (fst n) (n # l) = l"
  by (auto simp: Remove_def filter_id_conv image_iff)


subsection \<open>Each operation keeps the cache consistent\<close>

lemma lruWfD:
  assumes "lruWf s"
  shows "distinct (map fst (lruList s))"
    and "distinct (map snd (lruList s))"
    and "\<And>n. n \<in> set (lruList s) \<Longrightarrow> fst n < nextElem s"
    and "\<And>n. n \<in> set (lruList s) \<Longrightarrow> \<exists>el. elements s (snd n) = Some el \<and> listElem el = fst n"
    and "dom (elements s) = snd ` set (lruList s)"
    and "used s = int (length (lruList s))"
  using assms unfolding lruWf_def by blast+

lemma lruWfI:
  assumes "distinct (map fst (lruList s))"
    and "distinct (map snd (lruList s))"
    and "\<And>n. n \<in> set (lruList s) \<Longrightarrow> fst n < nextElem s"
    and "\<And>n. n \<in> set (lruList s) \<Longrightarrow> \<exists>el. elements s (snd n) = Some el \<and> listElem el = fst n"
    and "dom (elements s) = snd ` set (lruList s)"
    and "used s = int (length (lruList s))"
  shows "lruWf s"
  using assms unfolding lruWf_def by blast

lemma lruWf_elem:
  assumes wf: "lruWf s" and el: "elements s k = Some el"
  shows "(listElem el, k) \<in> set (lruList s)"
proof -
  have "k \<in> dom (elements s)" using el by blast
  then have "k \<in> snd ` set (lruList s)" using lruWfD(5) [OF wf] by simp
  then obtain n where n: "n \<in> set (lruList s)" "snd n = k" by blast
  from lruWfD(4) [OF wf n(1)] obtain el' where
    "elements s (snd n) = Some el'" "listElem el' = fst n" by blast
  with n(2) el have "fst n = listElem el" by simp
  with n(2) have "n = (listElem el, k)" by (metis prod.collapse)
  with n(1) show ?thesis by simp
qed

lemma lruWf_absent:
  assumes wf: "lruWf s" and el: "elements s k = None"
  shows "k \<notin> snd ` set (lruList s)"
proof -
  have "k \<notin> dom (elements s)" using el by blast
  then show ?thesis using lruWfD(5) [OF wf] by simp
qed

lemma MoveToBack_props:
  assumes wf: "lruWf s" and el: "elements s k = Some el"
  shows "MoveToBack (listElem el) (lruList s) =
           filter (\<lambda>n. snd n \<noteq> k) (lruList s) @ [(listElem el, k)]"
    and "set (MoveToBack (listElem el) (lruList s)) = set (lruList s)"
    and "distinct (map fst (MoveToBack (listElem el) (lruList s)))"
    and "distinct (map snd (MoveToBack (listElem el) (lruList s)))"
    and "length (MoveToBack (listElem el) (lruList s)) = length (lruList s)"
proof -
  let ?l = "lruList s" and ?e = "listElem el"
  let ?f = "filter (\<lambda>n. snd n \<noteq> k) ?l"
  note d1 = lruWfD(1) [OF wf] and d2 = lruWfD(2) [OF wf]
  have mem: "(?e, k) \<in> set ?l" using wf el by (rule lruWf_elem)
  show M: "MoveToBack ?e ?l = ?f @ [(?e, k)]"
    using MoveToBack_elem [OF d1 mem] filter_elem_eq_key [OF d1 d2 mem] by simp
  have other: "n = (?e, k)" if "n \<in> set ?l" "snd n = k" for n
    using key_unique [OF d2 mem that] .
  have "set ?f = set ?l - {(?e, k)}"
  proof (rule set_eqI)
    fix n show "n \<in> set ?f \<longleftrightarrow> n \<in> set ?l - {(?e, k)}"
      using other [of n] by (cases n) auto
  qed
  with mem show S: "set (MoveToBack ?e ?l) = set ?l" unfolding M by auto
  have ef: "?e \<notin> fst ` set ?f"
  proof
    assume "?e \<in> fst ` set ?f"
    then obtain n where n: "n \<in> set ?l" "snd n \<noteq> k" "fst n = ?e" by auto
    from node_unique [OF d1 mem n(1) n(3)] n(2) show False by simp
  qed
  have kf: "k \<notin> snd ` set ?f" by auto
  show D1: "distinct (map fst (MoveToBack ?e ?l))"
    unfolding M using d1 ef by (simp add: distinct_map_filter)
  show D2: "distinct (map snd (MoveToBack ?e ?l))"
    unfolding M using d2 kf by (simp add: distinct_map_filter)
  have "length (map snd (MoveToBack ?e ?l)) = card (set (map snd (MoveToBack ?e ?l)))"
    using D2 by (simp only: distinct_card)
  also have "\<dots> = card (set (map snd ?l))" using S by simp
  also have "\<dots> = length (map snd ?l)" using d2 by (simp only: distinct_card)
  finally show "length (MoveToBack ?e ?l) = length ?l" by simp
qed

lemma MoveToBack_keys:
  assumes wf: "lruWf s" and el: "elements s k = Some el"
  shows "map snd (MoveToBack (listElem el) (lruList s)) = filter (\<lambda>x. x \<noteq> k) (lruKeys s) @ [k]"
  unfolding MoveToBack_props(1) [OF wf el] lruKeys_def
  by (simp add: filter_map comp_def)


lemma lruWf_moved:
  assumes wf: "lruWf s" and el: "elements s k = Some el"
  shows "lruWf (s\<lparr>lruList := MoveToBack (listElem el) (lruList s)\<rparr>)"
proof (rule lruWfI)
  note P = MoveToBack_props [OF wf el]
  let ?s = "s\<lparr>lruList := MoveToBack (listElem el) (lruList s)\<rparr>"
  show "distinct (map fst (lruList ?s))" using P(3) by simp
  show "distinct (map snd (lruList ?s))" using P(4) by simp
  show "fst n < nextElem ?s" if "n \<in> set (lruList ?s)" for n
    using that P(2) lruWfD(3) [OF wf, of n] by simp
  show "\<exists>el. elements ?s (snd n) = Some el \<and> listElem el = fst n" if "n \<in> set (lruList ?s)" for n
    using that P(2) lruWfD(4) [OF wf, of n] by simp
  show "dom (elements ?s) = snd ` set (lruList ?s)" using P(2) lruWfD(5) [OF wf] by simp
  show "used ?s = int (length (lruList ?s))" using P(5) lruWfD(6) [OF wf] by simp
qed

lemma lruWf_replaced:
  assumes wf: "lruWf s" and el: "elements s k = Some el"
  shows "lruWf (s\<lparr>elements := (elements s)(k \<mapsto> \<lparr>listElem = listElem el, model = m\<rparr>),
                  lruList := MoveToBack (listElem el) (lruList s)\<rparr>)"
proof (rule lruWfI)
  note P = MoveToBack_props [OF wf el]
  let ?s = "s\<lparr>elements := (elements s)(k \<mapsto> \<lparr>listElem = listElem el, model = m\<rparr>),
                  lruList := MoveToBack (listElem el) (lruList s)\<rparr>"
  have mem: "(listElem el, k) \<in> set (lruList s)" using wf el by (rule lruWf_elem)
  show "distinct (map fst (lruList ?s))" using P(3) by simp
  show "distinct (map snd (lruList ?s))" using P(4) by simp
  show "fst n < nextElem ?s" if "n \<in> set (lruList ?s)" for n
    using that P(2) lruWfD(3) [OF wf, of n] by simp
  show "\<exists>el. elements ?s (snd n) = Some el \<and> listElem el = fst n" if "n \<in> set (lruList ?s)" for n
  proof (cases "snd n = k")
    case True
    from that P(2) have n: "n \<in> set (lruList s)" by simp
    from key_unique [OF lruWfD(2) [OF wf] mem n True] True show ?thesis by simp
  next
    case False
    from that P(2) have n: "n \<in> set (lruList s)" by simp
    with False lruWfD(4) [OF wf n] show ?thesis by simp
  qed
  have "k \<in> dom (elements s)" using el by blast
  then have "dom (elements ?s) = dom (elements s)" by auto
  then show "dom (elements ?s) = snd ` set (lruList ?s)" using P(2) lruWfD(5) [OF wf] by simp
  show "used ?s = int (length (lruList ?s))" using P(5) lruWfD(6) [OF wf] by simp
qed

lemma used_pos:
  assumes wf: "lruWf s" and el: "elements s k = Some el"
  shows "0 < used s"
proof -
  have "(listElem el, k) \<in> set (lruList s)" using wf el by (rule lruWf_elem)
  then have "lruList s \<noteq> []" by auto
  then show ?thesis using lruWfD(6) [OF wf] by simp
qed

lemma Get_hit:
  "lruWf s \<Longrightarrow> elements s k = Some el \<Longrightarrow>
   Get k s = (Inr (model el), s\<lparr>lruList := MoveToBack (listElem el) (lruList s)\<rparr>)"
  using used_pos [of s k el] by (simp add: Get_def)

lemma Get_miss:
  "elements s k = None \<Longrightarrow> Get k s = (Inl ModelNotFoundError, s)"
  by (simp add: Get_def)

lemma Get_result:
  "lruWf s \<Longrightarrow>
   fst (Get k s) = (case elements s k of None \<Rightarrow> Inl ModelNotFoundError | Some el \<Rightarrow> Inr (model el))"
  by (cases "elements s k") (simp_all add: Get_hit Get_miss)

lemma lruWf_Get: "lruWf s \<Longrightarrow> lruWf (snd (Get k s))"
  by (cases "elements s k") (simp_all add: Get_hit Get_miss lruWf_moved)

lemma Get_frame:
  "lruWf s \<Longrightarrow> elements (snd (Get k s)) = elements s \<and> capacity (snd (Get k s)) = capacity s \<and>
     used (snd (Get k s)) = used s \<and> nextElem (snd (Get k s)) = nextElem s"
  by (cases "elements s k") (simp_all add: Get_hit Get_miss)

lemma Get_keys:
  "lruWf s \<Longrightarrow> elements s k = Some el \<Longrightarrow>
   lruKeys (snd (Get k s)) = filter (\<lambda>x. x \<noteq> k) (lruKeys s) @ [k]"
  using MoveToBack_keys [of s k el] by (simp add: Get_hit lruKeys_def)

lemma Del_absent: "elements s k = None \<Longrightarrow> Del k s = s"
  by (simp add: Del_def)

lemma Del_present:
  assumes wf: "lruWf s" and el: "elements s k = Some el"
  shows "Del k s = s\<lparr>lruList := filter (\<lambda>n. snd n \<noteq> k) (lruList s),
                      elements := (elements s)(k := None), used := used s - 1\<rparr>"
proof -
  have mem: "(listElem el, k) \<in> set (lruList s)" using wf el by (rule lruWf_elem)
  have "Remove (listElem el) (lruList s) = filter (\<lambda>n. snd n \<noteq> k) (lruList s)"
    unfolding Remove_def by (rule filter_elem_eq_key [OF lruWfD(1) [OF wf] lruWfD(2) [OF wf] mem])
  then show ?thesis using el by (simp add: Del_def)
qed

lemma length_filter_key:
  assumes d2: "distinct (map snd l)" and mem: "(e, k) \<in> set l"
  shows "int (length (filter (\<lambda>n. snd n \<noteq> k) l)) = int (length l) - 1"
proof -
  have "filter (\<lambda>n. \<not> snd n \<noteq> k) l = [(e, k)]"
    using d2 mem
  proof (induction l)
    case Nil
    then show ?case by simp
  next
    case (Cons a l)
    show ?case
    proof (cases "a = (e, k)")
      case True
      with Cons.prems(1) have "\<forall>n \<in> set l. snd n \<noteq> k" by (auto simp: image_iff)
      then have "filter (\<lambda>n. \<not> snd n \<noteq> k) l = []" by (simp add: filter_empty_conv)
      with True show ?thesis by simp
    next
      case False
      with Cons.prems have m: "(e, k) \<in> set l" and d: "distinct (map snd l)" by auto
      from Cons.prems(1) m have "snd a \<noteq> k" by (auto simp: image_iff)
      with Cons.IH [OF d m] show ?thesis by simp
    qed
  qed
  then have "length (filter (\<lambda>n. \<not> snd n \<noteq> k) l) = 1" by simp
  with sum_length_filter_compl [of "\<lambda>n. snd n \<noteq> k" l] show ?thesis by linarith
qed

lemma lruWf_Del: 
  assumes wf: "lruWf s"
  shows "lruWf (Del k s)"
proof (cases "elements s k")
  case None
  with wf show ?thesis by (simp add: Del_absent)
next
  case (Some el)
  let ?s = "s\<lparr>lruList := filter (\<lambda>n. snd n \<noteq> k) (lruList s),
               elements := (elements s)(k := None), used := used s - 1\<rparr>"
  have mem: "(listElem el, k) \<in> set (lruList s)" using wf Some by (rule lruWf_elem)
  have "lruWf ?s"
  proof (rule lruWfI)
    show "distinct (map fst (lruList ?s))" using lruWfD(1) [OF wf] by (simp add: distinct_map_filter)
    show "distinct (map snd (lruList ?s))" using lruWfD(2) [OF wf] by (simp add: distinct_map_filter)
    show "fst n < nextElem ?s" if "n \<in> set (lruList ?s)" for n
      using that lruWfD(3) [OF wf, of n] by simp
    show "\<exists>el. elements ?s (snd n) = Some el \<and> listElem el = fst n" if "n \<in> set (lruList ?s)" for n
      using that lruWfD(4) [OF wf, of n] by simp
    have "snd ` set (filter (\<lambda>n. snd n \<noteq> k) (lruList s)) = snd ` set (lruList s) - {k}" by auto
    then show "dom (elements ?s) = snd ` set (lruList ?s)" using lruWfD(5) [OF wf] by simp
    show "used ?s = int (length (lruList ?s))"
      using length_filter_key [OF lruWfD(2) [OF wf] mem] lruWfD(6) [OF wf] by simp
  qed
  then show ?thesis using Del_present [OF wf Some] by simp
qed


lemma lruWf_addElement:
  assumes wf: "lruWf s" and el: "elements s k = None"
  shows "lruWf (addElement k m s)"
proof (rule lruWfI)
  let ?s = "addElement k m s"
  have l: "lruList ?s = lruList s @ [(nextElem s, k)]" by (simp add: addElement_def)
  have fresh: "nextElem s \<notin> fst ` set (lruList s)"
  proof
    assume "nextElem s \<in> fst ` set (lruList s)"
    then obtain n where "n \<in> set (lruList s)" "fst n = nextElem s" by auto
    with lruWfD(3) [OF wf, of n] show False by simp
  qed
  have knew: "k \<notin> snd ` set (lruList s)" using wf el by (rule lruWf_absent)
  show "distinct (map fst (lruList ?s))" using lruWfD(1) [OF wf] fresh unfolding l by simp
  show "distinct (map snd (lruList ?s))" using lruWfD(2) [OF wf] knew unfolding l by simp
  show "fst n < nextElem ?s" if "n \<in> set (lruList ?s)" for n
    using that lruWfD(3) [OF wf, of n] unfolding l by (auto simp: addElement_def)
  show "\<exists>el. elements ?s (snd n) = Some el \<and> listElem el = fst n" if "n \<in> set (lruList ?s)" for n
  proof (cases "n = (nextElem s, k)")
    case True
    then show ?thesis by (simp add: addElement_def)
  next
    case False
    with that have n: "n \<in> set (lruList s)" unfolding l by simp
    with knew have "snd n \<noteq> k" by (auto simp: image_iff)
    with lruWfD(4) [OF wf n] show ?thesis by (simp add: addElement_def)
  qed
  show "dom (elements ?s) = snd ` set (lruList ?s)"
    using lruWfD(5) [OF wf] by (simp add: addElement_def)
  show "used ?s = int (length (lruList ?s))"
    using lruWfD(6) [OF wf] by (simp add: addElement_def)
qed

lemma delLoop_step:
  "delLoop u s =
     (if u > capacity s then
        (case lruList s of
           [] \<Rightarrow> Panicked NilPointerDereference s
         | frontElem # rest \<Rightarrow> delLoop (u - 1) (Del (snd frontElem) s))
      else Returned s)"
  by (subst delLoop.simps) (simp add: Del_def split: list.splits)

lemma Del_frame:
  "capacity (Del k s) = capacity s \<and> nextElem (Del k s) = nextElem s"
  by (simp add: Del_def split: option.splits)

lemma Del_front:
  assumes wf: "lruWf s" and l: "lruList s = front # rest"
  shows "lruList (Del (snd front) s) = rest"
    and "elements (Del (snd front) s) = (elements s)(snd front := None)"
    and "used (Del (snd front) s) = used s - 1"
proof -
  have "front \<in> set (lruList s)" using l by simp
  from lruWfD(4) [OF wf this] obtain el where el: "elements s (snd front) = Some el" by blast
  note D = Del_present [OF wf el]
  have "\<forall>n \<in> set rest. snd n \<noteq> snd front"
    using lruWfD(2) [OF wf] unfolding l by (auto simp: image_iff)
  then have "filter (\<lambda>n. snd n \<noteq> snd front) rest = rest" by (simp add: filter_id_conv)
  then show "lruList (Del (snd front) s) = rest" unfolding D using l by simp
  show "elements (Del (snd front) s) = (elements s)(snd front := None)" unfolding D by simp
  show "used (Del (snd front) s) = used s - 1" unfolding D by simp
qed

text \<open>What the eviction loop leaves behind: the first \<open>n\<close> elements are gone.\<close>

lemma delLoop_spec:
  assumes "lruWf s" "n = nat (used s - capacity s)"
  shows "lruWf (stateOf (delLoop (used s) s)) \<and>
         capacity (stateOf (delLoop (used s) s)) = capacity s \<and>
         nextElem (stateOf (delLoop (used s) s)) = nextElem s \<and>
         lruList (stateOf (delLoop (used s) s)) = drop n (lruList s) \<and>
         elements (stateOf (delLoop (used s) s)) =
           (\<lambda>k. if k \<in> snd ` set (take n (lruList s)) then None else elements s k) \<and>
         (0 \<le> capacity s \<longrightarrow> delLoop (used s) s = Returned (stateOf (delLoop (used s) s)))"
  using assms
proof (induction n arbitrary: s)
  case 0
  then have "\<not> used s > capacity s" by simp
  then have "delLoop (used s) s = Returned s" by (subst delLoop_step) simp
  with 0 show ?case by simp
next
  case (Suc n)
  then have gt: "used s > capacity s" by simp
  show ?case
  proof (cases "lruList s")
    case Nil
    with gt have "delLoop (used s) s = Panicked NilPointerDereference s"
      by (subst delLoop_step) simp
    moreover from Nil lruWfD(6) [OF Suc.prems(1)] gt have "capacity s < 0" by simp
    ultimately show ?thesis using Suc.prems(1) Nil by simp
  next
    case (Cons front rest)
    let ?s1 = "Del (snd front) s"
    note F = Del_front [OF Suc.prems(1) Cons]
    have wf1: "lruWf ?s1" using Suc.prems(1) by (rule lruWf_Del)
    have c1: "capacity ?s1 = capacity s" and x1: "nextElem ?s1 = nextElem s"
      using Del_frame [of "snd front" s] by simp_all
    have n1: "n = nat (used ?s1 - capacity ?s1)" using Suc.prems(2) F(3) c1 by simp
    have step: "delLoop (used s) s = delLoop (used ?s1) ?s1"
      using gt Cons F(3) by (subst delLoop_step) simp
    from Suc.IH [OF wf1 n1] show ?thesis
      unfolding step c1 x1 F(1) F(2) using Cons by (auto simp: fun_eq_iff)
  qed
qed

lemma delLoop_inv:
  assumes wf: "lruWf s"
  shows "lruInv (stateOf (delLoop (used s) s))"
proof -
  let ?r = "stateOf (delLoop (used s) s)" and ?n = "nat (used s - capacity s)"
  from delLoop_spec [OF wf refl] have wfr: "lruWf ?r" and c: "capacity ?r = capacity s"
    and l: "lruList ?r = drop ?n (lruList s)" by simp_all
  have "used ?r = int (length (drop ?n (lruList s)))" using lruWfD(6) [OF wfr] l by simp
  also have "\<dots> \<le> max 0 (capacity s)" using lruWfD(6) [OF wf] by simp
  finally show ?thesis using wfr c by (simp add: lruInv_def)
qed


lemma lruInv_newDaoLru: "lruInv (newDaoLru cap)"
  by (simp add: lruInv_def lruWf_def newDaoLru_def)

lemma lruWf_capacity: "lruWf (s\<lparr>capacity := c\<rparr>) = lruWf s"
  by (simp add: lruWf_def)

lemma Del_used: "lruWf s \<Longrightarrow> used (Del k s) \<le> used s"
  by (cases "elements s k") (simp_all add: Del_absent Del_present)

lemma Put_small: "capacity s < 1 \<Longrightarrow> Put k v s = Returned s"
  by (simp add: Put_def)

lemma Put_existing:
  "1 \<le> capacity s \<Longrightarrow> elements s k = Some el \<Longrightarrow>
   Put k v s = Returned (s\<lparr>elements := (elements s)(k \<mapsto> \<lparr>listElem = listElem el, model = v\<rparr>),
                           lruList := MoveToBack (listElem el) (lruList s)\<rparr>)"
  by (simp add: Put_def)

lemma Put_new:
  "1 \<le> capacity s \<Longrightarrow> elements s k = None \<Longrightarrow>
   Put k v s = delLoop (used (addElement k v s)) (addElement k v s)"
  by (simp add: Put_def delListFrontElement_def)

lemma lruInv_Put:
  assumes inv: "lruInv s"
  shows "lruInv (stateOf (Put k v s))"
proof (cases "capacity s < 1")
  case True
  with inv show ?thesis by (simp add: Put_small)
next
  case False
  then have c: "1 \<le> capacity s" by simp
  from inv have wf: "lruWf s" by (simp add: lruInv_def)
  show ?thesis
  proof (cases "elements s k")
    case None
    from delLoop_inv [OF lruWf_addElement [OF wf None]] show ?thesis
      by (simp add: Put_new [OF c None])
  next
    case (Some el)
    from lruWf_replaced [OF wf Some] inv show ?thesis
      by (simp add: Put_existing [OF c Some] lruInv_def)
  qed
qed

lemma lruInv_step:
  assumes inv: "lruInv s"
  shows "lruInv (stateOf (step dflt x s))"
proof (cases x)
  case (OpGet k)
  from inv have wf: "lruWf s" by (simp add: lruInv_def)
  from lruWf_Get [OF wf] Get_frame [OF wf, of k] inv show ?thesis
    by (simp add: OpGet lruInv_def)
next
  case (OpPut k v)
  with lruInv_Put [OF inv] show ?thesis by simp
next
  case (OpDel k)
  from inv have wf: "lruWf s" by (simp add: lruInv_def)
  from lruWf_Del [OF wf] Del_used [OF wf, of k] Del_frame [of k s] inv show ?thesis
    by (simp add: OpDel lruInv_def)
next
  case (OpResetCapacity c)
  from inv have "lruWf (s\<lparr>capacity := c\<rparr>)" by (simp add: lruInv_def lruWf_capacity)
  from delLoop_inv [OF this] show ?thesis
    by (simp add: OpResetCapacity resetCapacity_def delListFrontElement_def)
next
  case OpClear
  then show ?thesis by (simp add: Clear_def lruInv_def lruWf_def)
qed

lemma lruInv_run: "lruInv s \<Longrightarrow> lruInv (run dflt xs s)"
  by (induction xs arbitrary: s) (simp_all add: lruInv_step)

lemma lruWf_correspondence:
  assumes wf: "lruWf s"
  shows "bij_betw snd (set (lruList s)) (dom (elements s))"
    and "length (lruList s) = card (dom (elements s))"
proof -
  have "inj_on snd (set (lruList s))" using lruWfD(2) [OF wf] by (simp add: distinct_map)
  then show "bij_betw snd (set (lruList s)) (dom (elements s))"
    using lruWfD(5) [OF wf] by (simp add: bij_betw_def)
  have "card (dom (elements s)) = card (set (map snd (lruList s)))"
    using lruWfD(5) [OF wf] by simp
  also have "\<dots> = length (map snd (lruList s))"
    using lruWfD(2) [OF wf] by (rule distinct_card)
  finally show "length (lruList s) = card (dom (elements s))" by simp
qed

text \<open>
  C4. In every cache reached from a new one by any sequence of Get, Put, Del,
  resetCapacity and Clear calls (a call that panics included, with the cache as the
  panic left it): the elements of the list and the keys of the map correspond one to
  one through the key an element stores, each element being the one the map's entry
  for its key points to; the elements are distinct; and \<open>used\<close> is the number of keys
  in the map, which is also the length of the list.
\<close>

theorem cache_map_list_correspondence:
  assumes "s = run dflt ops (newDaoLru cap)"
  shows "bij_betw snd (set (lruList s)) (dom (elements s)) \<and>
         (\<forall>n \<in> set (lruList s). \<exists>el. elements s (snd n) = Some el \<and> listElem el = fst n) \<and>
         distinct (map fst (lruList s)) \<and>
         length (lruList s) = card (dom (elements s)) \<and>
         used s = int (card (dom (elements s)))"
proof -
  have "lruInv s" unfolding assms by (rule lruInv_run [OF lruInv_newDaoLru])
  then have wf: "lruWf s" by (simp add: lruInv_def)
  from lruWf_correspondence [OF wf] lruWfD(1) [OF wf] lruWfD(4) [OF wf] lruWfD(6) [OF wf]
  show ?thesis by simp
qed


subsection \<open>What Put leaves behind\<close>

lemma Put_existing_spec:
  assumes wf: "lruWf s" and c: "1 \<le> capacity s" and el: "elements s k = Some el"
  shows "\<exists>s'. Put k v s = Returned s' \<and> lruWf s' \<and> capacity s' = capacity s \<and> used s' = used s \<and>
           lruKeys s' = filter (\<lambda>x. x \<noteq> k) (lruKeys s) @ [k] \<and>
           elements s' = (elements s)(k \<mapsto> \<lparr>listElem = listElem el, model = v\<rparr>)"
  using lruWf_replaced [OF wf el, of v] MoveToBack_keys [OF wf el]
  by (simp add: Put_existing [OF c el] lruKeys_def)

lemma Put_new_spec:
  assumes wf: "lruWf s" and c: "1 \<le> capacity s" and el: "elements s k = None"
    and a: "a = length (lruKeys s) + 1 - nat (capacity s)"
  shows "\<exists>s'. Put k v s = Returned s' \<and> lruInv s' \<and> capacity s' = capacity s \<and>
           lruKeys s' = drop a (lruKeys s @ [k]) \<and>
           elements s' = (\<lambda>k'. if k' \<in> set (take a (lruKeys s @ [k])) then None
                               else ((elements s)(k \<mapsto> \<lparr>listElem = nextElem s, model = v\<rparr>)) k')"
proof -
  let ?s1 = "addElement k v s"
  let ?r = "stateOf (delLoop (used ?s1) ?s1)"
  have wf1: "lruWf ?s1" using wf el by (rule lruWf_addElement)
  have c1: "capacity ?s1 = capacity s" by (simp add: addElement_def)
  have l1: "lruList ?s1 = lruList s @ [(nextElem s, k)]" by (simp add: addElement_def)
  have e1: "elements ?s1 = (elements s)(k \<mapsto> \<lparr>listElem = nextElem s, model = v\<rparr>)"
    by (simp add: addElement_def)
  have "used ?s1 = int (length (lruList s)) + 1"
    using lruWfD(6) [OF wf] by (simp add: addElement_def)
  then have n: "nat (used ?s1 - capacity ?s1) = a"
    using c unfolding a c1 lruKeys_def by simp
  from delLoop_spec [OF wf1 n [symmetric]] c c1 have
    R: "delLoop (used ?s1) ?s1 = Returned ?r" and
    cr: "capacity ?r = capacity s" and
    lr: "lruList ?r = drop a (lruList ?s1)" and
    er: "elements ?r = (\<lambda>k'. if k' \<in> snd ` set (take a (lruList ?s1)) then None else elements ?s1 k')"
    by simp_all
  have k1: "map snd (lruList ?s1) = lruKeys s @ [k]" unfolding l1 lruKeys_def by simp
  have "map snd (drop a (lruList ?s1)) = drop a (map snd (lruList ?s1))" by (rule drop_map [symmetric])
  then have K: "lruKeys ?r = drop a (lruKeys s @ [k])"
    using k1 lr by (simp add: lruKeys_def)
  have "set (take a (map snd (lruList ?s1))) = snd ` set (take a (lruList ?s1))"
    by (simp only: take_map set_map)
  then have T: "snd ` set (take a (lruList ?s1)) = set (take a (lruKeys s @ [k]))"
    by (simp only: k1)
  have E: "elements ?r = (\<lambda>k'. if k' \<in> set (take a (lruKeys s @ [k])) then None
                               else ((elements s)(k \<mapsto> \<lparr>listElem = nextElem s, model = v\<rparr>)) k')"
    unfolding er T e1 ..
  have I: "lruInv ?r" using wf1 by (rule delLoop_inv)
  show ?thesis
    unfolding Put_new [OF c el] using R I cr K E by blast
qed

lemma Put_then_Get:
  assumes wf: "lruWf s" and c: "1 \<le> capacity s"
  shows "\<exists>s'. Put k v s = Returned s' \<and> fst (Get k s') = Inr v"
proof (cases "elements s k")
  case None
  define a where "a = length (lruKeys s) + 1 - nat (capacity s)"
  from Put_new_spec [OF wf c None a_def, of v] obtain s' where
    P: "Put k v s = Returned s'" and inv: "lruInv s'" and
    e: "elements s' = (\<lambda>k'. if k' \<in> set (take a (lruKeys s @ [k])) then None
                               else ((elements s)(k \<mapsto> \<lparr>listElem = nextElem s, model = v\<rparr>)) k')"
    by blast
  have "a \<le> length (lruKeys s)" using c unfolding a_def by simp
  then have "take a (lruKeys s @ [k]) = take a (lruKeys s)" by simp
  moreover have "k \<notin> set (lruKeys s)"
    using lruWf_absent [OF wf None] unfolding lruKeys_def by simp
  ultimately have "k \<notin> set (take a (lruKeys s @ [k]))" by (auto dest: in_set_takeD)
  then have "elements s' k = Some \<lparr>listElem = nextElem s, model = v\<rparr>" unfolding e by simp
  moreover have "lruWf s'" using inv by (simp add: lruInv_def)
  ultimately have "fst (Get k s') = Inr v" by (simp add: Get_result)
  with P show ?thesis by blast
next
  case (Some el)
  from Put_existing_spec [OF wf c Some, of v] obtain s' where
    P: "Put k v s = Returned s'" and wf': "lruWf s'" and
    e: "elements s' = (elements s)(k \<mapsto> \<lparr>listElem = listElem el, model = v\<rparr>)"
    by blast
  have "fst (Get k s') = Inr v" using wf' e by (simp add: Get_result)
  with P show ?thesis by blast
qed

text \<open>
  C5. On every cache reached from a new one whose capacity is at least 1 at that
  moment, \<open>Put(k, v)\<close> returns and a \<open>Get(k)\<close> right after it returns \<open>v\<close> and no
  error.
\<close>

theorem Put_Get_roundtrip:
  assumes "s = run dflt ops (newDaoLru cap)" and "1 \<le> capacity s"
  shows "\<exists>s'. Put k v s = Returned s' \<and> fst (Get k s') = Inr v"
proof -
  have "lruInv s" unfolding assms(1) by (rule lruInv_run [OF lruInv_newDaoLru])
  then have "lruWf s" by (simp add: lruInv_def)
  then show ?thesis using assms(2) by (rule Put_then_Get)
qed


subsection \<open>Filling the cache and surviving later insertions\<close>

lemma lruInv_keys:
  assumes "lruInv s"
  shows "lruWf s" and "set (lruKeys s) = dom (elements s)" and "distinct (lruKeys s)"
    and "int (length (lruKeys s)) \<le> max 0 (capacity s)"
proof -
  show wf: "lruWf s" using assms by (simp add: lruInv_def)
  show "set (lruKeys s) = dom (elements s)" using lruWfD(5) [OF wf] by (simp add: lruKeys_def)
  show "distinct (lruKeys s)" using lruWfD(2) [OF wf] by (simp add: lruKeys_def)
  show "int (length (lruKeys s)) \<le> max 0 (capacity s)"
    using assms lruWfD(6) [OF wf] by (simp add: lruInv_def lruKeys_def)
qed

lemma run_putAll_Cons:
  "run dflt (putAll ((k, v) # rest)) s = run dflt (putAll rest) (stateOf (Put k v s))"
  by (simp add: putAll_def)

lemma run_putAll_small:
  "capacity s < 1 \<Longrightarrow> run dflt (putAll kvs) s = s"
  by (induction kvs) (auto simp: putAll_def Put_small)

lemma fill:
  assumes "lruInv s" "1 \<le> capacity s" "distinct (map fst kvs)"
    "set (map fst kvs) \<inter> set (lruKeys s) = {}"
  shows "lruInv (run dflt (putAll kvs) s) \<and>
         capacity (run dflt (putAll kvs) s) = capacity s \<and>
         lruKeys (run dflt (putAll kvs) s) =
           drop (length (lruKeys s) + length kvs - nat (capacity s)) (lruKeys s @ map fst kvs) \<and>
         (\<forall>k \<in> set (lruKeys (run dflt (putAll kvs) s)).
            map_option model (elements (run dflt (putAll kvs) s) k) =
              (case map_of kvs k of Some v \<Rightarrow> Some v | None \<Rightarrow> map_option model (elements s k)))"
  using assms
proof (induction kvs arbitrary: s)
  case Nil
  from lruInv_keys(4) [OF Nil.prems(1)] Nil.prems(2)
  have "length (lruKeys s) \<le> nat (capacity s)" by simp
  with Nil show ?case by (simp add: putAll_def)
next
  case (Cons kv rest)
  obtain k v where kv: "kv = (k, v)" by (cases kv)
  let ?C = "nat (capacity s)" and ?ks = "lruKeys s"
  note K = lruInv_keys [OF Cons.prems(1)]
  have knew: "k \<notin> set ?ks" using Cons.prems(4) kv by simp
  then have el: "elements s k = None" using K(2) by blast
  define a where "a = length ?ks + 1 - ?C"
  from Put_new_spec [OF K(1) Cons.prems(2) el a_def, of v] obtain s1 where
    P: "Put k v s = Returned s1" and inv1: "lruInv s1" and c1: "capacity s1 = capacity s" and
    k1: "lruKeys s1 = drop a (?ks @ [k])" and
    e1: "elements s1 = (\<lambda>k'. if k' \<in> set (take a (?ks @ [k])) then None
                               else ((elements s)(k \<mapsto> \<lparr>listElem = nextElem s, model = v\<rparr>)) k')"
    by blast
  have run1: "run dflt (putAll (kv # rest)) s = run dflt (putAll rest) s1"
    unfolding kv run_putAll_Cons P by simp
  have sub: "set (lruKeys s1) \<subseteq> set ?ks \<union> {k}"
    unfolding k1 using set_drop_subset [of a "?ks @ [k]"] by auto
  have d': "distinct (map fst rest)" and kr: "k \<notin> fst ` set rest"
    using Cons.prems(3) kv by auto
  have disj: "set (map fst rest) \<inter> set (lruKeys s1) = {}"
    using sub Cons.prems(4) kr by auto
  have c1': "1 \<le> capacity s1" using Cons.prems(2) c1 by simp
  note IH = Cons.IH [OF inv1 c1' d' disj, unfolded c1]
  let ?s' = "run dflt (putAll rest) s1"
  have lenks: "length ?ks \<le> ?C" using K(4) Cons.prems(2) by simp
  have Cpos: "1 \<le> ?C" using Cons.prems(2) by simp
  have ale: "a \<le> length ?ks" unfolding a_def using Cpos by simp
  have "drop a (?ks @ [k]) @ map fst rest = drop a (?ks @ k # map fst rest)"
    using ale by simp
  then have "lruKeys ?s' =
      drop (length (lruKeys s1) + length rest - ?C) (drop a (?ks @ k # map fst rest))"
    using IH k1 by simp
  also have "\<dots> = drop (length (lruKeys s1) + length rest - ?C + a) (?ks @ k # map fst rest)"
    by (simp only: drop_drop)
  also have "length (lruKeys s1) + length rest - ?C + a = length ?ks + length (kv # rest) - ?C"
  proof -
    have "length (lruKeys s1) = length ?ks + 1 - a" unfolding k1 by simp
    with lenks Cpos a_def show ?thesis by (simp only: length_Cons) arith
  qed
  finally have keys: "lruKeys ?s' =
      drop (length ?ks + length (kv # rest) - ?C) (?ks @ map fst (kv # rest))"
    using kv by simp
  have kin1: "k \<in> set (lruKeys s1)" unfolding k1 using ale by simp
  have v1: "map_option model (elements s1 k') =
      (if k' = k then Some v else map_option model (elements s k'))"
    if "k' \<in> set (lruKeys s1)" for k'
  proof -
    from that lruInv_keys(2) [OF inv1] have "elements s1 k' \<noteq> None" by blast
    then have "elements s1 k' = ((elements s)(k \<mapsto> \<lparr>listElem = nextElem s, model = v\<rparr>)) k'"
      unfolding e1 by (simp split: if_splits)
    then show ?thesis by simp
  qed
  have vals: "map_option model (elements ?s' k') =
      (case map_of (kv # rest) k' of Some v \<Rightarrow> Some v | None \<Rightarrow> map_option model (elements s k'))"
    if k': "k' \<in> set (lruKeys ?s')" for k'
  proof -
    from IH k' have i: "map_option model (elements ?s' k') =
        (case map_of rest k' of Some v \<Rightarrow> Some v | None \<Rightarrow> map_option model (elements s1 k'))"
      by blast
    have in1: "k' \<in> set (lruKeys s1)" if "map_of rest k' = None"
    proof -
      from that have "k' \<notin> fst ` set rest" by (simp add: map_of_eq_None_iff)
      moreover have "k' \<in> set (lruKeys s1) \<union> set (map fst rest)"
      proof -
        from IH have "lruKeys ?s' =
            drop (length (lruKeys s1) + length rest - ?C) (lruKeys s1 @ map fst rest)" by blast
        with k' have "k' \<in> set (lruKeys s1 @ map fst rest)" by (metis in_set_dropD)
        then show ?thesis by simp
      qed
      ultimately show ?thesis by auto
    qed
    show ?thesis
    proof (cases "k' = k")
      case True
      from kr have "map_of rest k = None" by (simp add: map_of_eq_None_iff)
      with i True v1 [OF kin1] kv show ?thesis by simp
    next
      case False
      show ?thesis
      proof (cases "map_of rest k'")
        case None
        with i v1 [OF in1 [OF None]] False kv show ?thesis by simp
      next
        case (Some x)
        with i False kv show ?thesis by simp
      qed
    qed
  qed
  from IH keys vals show ?case unfolding run1 by blast
qed


lemma survive:
  assumes "lruInv s" "lruKeys s = pre @ k # post" "k \<notin> fst ` set kvs"
    "int (length post) + int (length kvs) < capacity s"
  shows "lruInv (run dflt (putAll kvs) s) \<and> elements (run dflt (putAll kvs) s) k = elements s k"
  using assms
proof (induction kvs arbitrary: s pre post)
  case Nil
  then show ?case by (simp add: putAll_def)
next
  case (Cons kv rest)
  obtain k' v' where kv: "kv = (k', v')" by (cases kv)
  note K = lruInv_keys [OF Cons.prems(1)]
  have c: "1 \<le> capacity s" using Cons.prems(4) by simp
  have ne: "k' \<noteq> k" and kr: "k \<notin> fst ` set rest" using Cons.prems(3) kv by auto
  have "\<exists>s1 pre1 post1. Put k' v' s = Returned s1 \<and> lruInv s1 \<and> capacity s1 = capacity s \<and>
      lruKeys s1 = pre1 @ k # post1 \<and> length post1 \<le> length post + 1 \<and>
      elements s1 k = elements s k"
  proof (cases "elements s k'")
    case (Some el)
    from Put_existing_spec [OF K(1) c Some, of v'] obtain s1 where
      P: "Put k' v' s = Returned s1" and wf1: "lruWf s1" and c1: "capacity s1 = capacity s" and
      u1: "used s1 = used s" and
      k1: "lruKeys s1 = filter (\<lambda>x. x \<noteq> k') (lruKeys s) @ [k']" and
      e1: "elements s1 = (elements s)(k' \<mapsto> \<lparr>listElem = listElem el, model = v'\<rparr>)"
      by blast
    have inv1: "lruInv s1" using Cons.prems(1) wf1 c1 u1 by (simp add: lruInv_def)
    have "lruKeys s1 = filter (\<lambda>x. x \<noteq> k') pre @ k # (filter (\<lambda>x. x \<noteq> k') post @ [k'])"
      unfolding k1 Cons.prems(2) using ne by simp
    moreover have "length (filter (\<lambda>x. x \<noteq> k') post @ [k']) \<le> length post + 1" by simp
    moreover have "elements s1 k = elements s k" unfolding e1 using ne by simp
    ultimately show ?thesis using P inv1 c1 by blast
  next
    case None
    define a where "a = length (lruKeys s) + 1 - nat (capacity s)"
    from Put_new_spec [OF K(1) c None a_def, of v'] obtain s1 where
      P: "Put k' v' s = Returned s1" and inv1: "lruInv s1" and c1: "capacity s1 = capacity s" and
      k1: "lruKeys s1 = drop a (lruKeys s @ [k'])" and
      e1: "elements s1 = (\<lambda>x. if x \<in> set (take a (lruKeys s @ [k'])) then None
                               else ((elements s)(k' \<mapsto> \<lparr>listElem = nextElem s, model = v'\<rparr>)) x)"
      by blast
    have ale: "a \<le> length pre"
      using Cons.prems(4) unfolding a_def Cons.prems(2) by simp
    have kpre: "k \<notin> set pre" using K(3) unfolding Cons.prems(2) by simp
    have "lruKeys s1 = drop a pre @ k # (post @ [k'])"
      unfolding k1 Cons.prems(2) using ale by simp
    moreover have "length (post @ [k']) \<le> length post + 1" by simp
    moreover have "take a (lruKeys s @ [k']) = take a pre"
      unfolding Cons.prems(2) using ale by simp
    then have "elements s1 k = elements s k"
      unfolding e1 using kpre ne by (auto dest: in_set_takeD)
    ultimately show ?thesis using P inv1 c1 by blast
  qed
  then obtain s1 pre1 post1 where
    P: "Put k' v' s = Returned s1" and inv1: "lruInv s1" and c1: "capacity s1 = capacity s" and
    k1: "lruKeys s1 = pre1 @ k # post1" and l1: "length post1 \<le> length post + 1" and
    e1: "elements s1 k = elements s k"
    by blast
  have len1: "int (length post1) + int (length rest) < capacity s1"
    using Cons.prems(4) l1 c1 by simp
  have run1: "run dflt (putAll (kv # rest)) s = run dflt (putAll rest) s1"
    unfolding kv run_putAll_Cons P by simp
  from Cons.IH [OF inv1 k1 kr len1] e1 show ?case unfolding run1 by simp
qed

lemma Get_promotes:
  assumes inv: "lruInv s" and hit: "fst (Get k s) = Inr v"
    and nk: "k \<notin> fst ` set kvs" and len: "int (length kvs) < capacity s"
  shows "fst (Get k (run dflt (putAll kvs) (snd (Get k s)))) = Inr v"
proof -
  note K = lruInv_keys [OF inv]
  from hit Get_result [OF K(1), of k] obtain el where
    el: "elements s k = Some el" and v: "model el = v"
    by (cases "elements s k") auto
  let ?g = "snd (Get k s)"
  note F = Get_frame [OF K(1), of k]
  have invg: "lruInv ?g" using inv lruWf_Get [OF K(1), of k] F by (simp add: lruInv_def)
  have kg: "lruKeys ?g = filter (\<lambda>x. x \<noteq> k) (lruKeys s) @ k # []"
    using Get_keys [OF K(1) el] by simp
  have lg: "int (length ([] :: string list)) + int (length kvs) < capacity ?g"
    using len F by simp
  from survive [OF invg kg nk lg, of dflt] F el have
    "lruInv (run dflt (putAll kvs) ?g)" "elements (run dflt (putAll kvs) ?g) k = Some el"
    by simp_all
  then show ?thesis using v by (simp add: Get_result lruInv_def)
qed

lemma overflow_by_one:
  assumes c: "0 \<le> cap" and len: "int (length kvs) = cap + 1" and d: "distinct (map fst kvs)"
  shows "fst (Get (fst (hd kvs)) (run dflt (putAll kvs) (newDaoLru cap))) = Inl ModelNotFoundError"
    and "\<forall>kv \<in> set (tl kvs). fst (Get (fst kv) (run dflt (putAll kvs) (newDaoLru cap))) = Inr (snd kv)"
proof -
  let ?init = "newDaoLru cap :: 'a modelLruCache" and ?s = "run dflt (putAll kvs) (newDaoLru cap)"
  have ne: "kvs \<noteq> []" using c len by auto
  have both: "fst (Get (fst (hd kvs)) ?s) = Inl ModelNotFoundError \<and>
      (\<forall>kv \<in> set (tl kvs). fst (Get (fst kv) ?s) = Inr (snd kv))"
  proof (cases "cap = 0")
    case True
    have "capacity ?init < 1" using True by (simp add: newDaoLru_def)
    then have "?s = ?init" by (rule run_putAll_small)
    moreover have "tl kvs = []" using len True by (cases kvs) auto
    ultimately show ?thesis by (simp add: Get_def newDaoLru_def)
  next
    case False
    with c have c1: "1 \<le> capacity ?init" by (simp add: newDaoLru_def)
    have k0: "lruKeys ?init = []" and e0: "elements ?init = Map.empty"
      by (simp_all add: lruKeys_def newDaoLru_def)
    have "set (map fst kvs) \<inter> set (lruKeys ?init) = {}" unfolding k0 by simp
    from fill [OF lruInv_newDaoLru c1 d this, of dflt] have
      F: "lruInv ?s \<and> capacity ?s = capacity ?init \<and>
         lruKeys ?s = drop (length (lruKeys ?init) + length kvs - nat (capacity ?init))
                        (lruKeys ?init @ map fst kvs) \<and>
         (\<forall>k \<in> set (lruKeys ?s). map_option model (elements ?s k) =
            (case map_of kvs k of Some v \<Rightarrow> Some v
             | None \<Rightarrow> map_option model (elements ?init k)))" .
    have ci: "capacity ?init = cap" by (simp add: newDaoLru_def)
    from F have inv: "lruInv ?s" by blast
    from F have keys: "lruKeys ?s = drop (length kvs - nat cap) (map fst kvs)"
      unfolding k0 ci by simp
    from F have vals: "map_option model (elements ?s k) =
            (case map_of kvs k of Some v \<Rightarrow> Some v
             | None \<Rightarrow> map_option model (elements ?init k))" if "k \<in> set (lruKeys ?s)" for k
      using that by blast
    have "length kvs - nat cap = 1" using len c by linarith
    then have keys': "lruKeys ?s = map fst (tl kvs)" using keys by (simp add: drop_Suc map_tl)
    note K = lruInv_keys [OF inv]
    from d ne have "fst (hd kvs) \<notin> set (map fst (tl kvs))" by (cases kvs) auto
    then have "elements ?s (fst (hd kvs)) = None" using K(2) keys' by auto
    then have miss: "fst (Get (fst (hd kvs)) ?s) = Inl ModelNotFoundError"
      by (simp add: Get_miss)
    have hit: "fst (Get (fst kv) ?s) = Inr (snd kv)" if "kv \<in> set (tl kvs)" for kv
    proof -
      from that have m: "kv \<in> set kvs" by (rule list.set_sel(2) [OF ne])
      with d have "map_of kvs (fst kv) = Some (snd kv)" by simp
      moreover from that have "fst kv \<in> set (lruKeys ?s)" unfolding keys' by simp
      ultimately have "map_option model (elements ?s (fst kv)) = Some (snd kv)"
        using vals [of "fst kv"] by simp
      then show ?thesis by (auto simp: Get_result [OF K(1)] split: option.splits)
    qed
    from miss hit show ?thesis by blast
  qed
  from both show "fst (Get (fst (hd kvs)) ?s) = Inl ModelNotFoundError" ..
  from both show "\<forall>kv \<in> set (tl kvs). fst (Get (fst kv) ?s) = Inr (snd kv)" ..
qed

text \<open>
  C3, as the code has it. After \<open>capacity + 1\<close> pairs with distinct keys are put into
  a new cache with no Get in between, the first key misses and every other key
  returns its object. On every cache reached from a new one, after a \<open>Get(k)\<close> that
  hits, putting fewer pairs than the capacity under keys other than \<open>k\<close> leaves \<open>k\<close>
  retrievable with the same object.
\<close>

theorem lru_eviction_and_promotion:
  "(0 \<le> cap \<and> int (length kvs) = cap + 1 \<and> distinct (map fst kvs) \<longrightarrow>
      fst (Get (fst (hd kvs)) (run dflt (putAll kvs) (newDaoLru cap))) = Inl ModelNotFoundError \<and>
      (\<forall>kv \<in> set (tl kvs).
         fst (Get (fst kv) (run dflt (putAll kvs) (newDaoLru cap))) = Inr (snd kv))) \<and>
   (s = run dflt ops (newDaoLru cap0) \<and> fst (Get k s) = Inr v \<and> k \<notin> fst ` set kvs' \<and>
    int (length kvs') < capacity s \<longrightarrow>
      fst (Get k (run dflt (putAll kvs') (snd (Get k s)))) = Inr v)"
proof (intro conjI impI)
  assume a: "0 \<le> cap \<and> int (length kvs) = cap + 1 \<and> distinct (map fst kvs)"
  then have c: "0 \<le> cap" and l: "int (length kvs) = cap + 1" and d: "distinct (map fst kvs)"
    by simp_all
  show "fst (Get (fst (hd kvs)) (run dflt (putAll kvs) (newDaoLru cap))) = Inl ModelNotFoundError"
    by (rule overflow_by_one(1) [OF c l d])
  show "\<forall>kv \<in> set (tl kvs). fst (Get (fst kv) (run dflt (putAll kvs) (newDaoLru cap))) = Inr (snd kv)"
    by (rule overflow_by_one(2) [OF c l d])
next
  assume a: "s = run dflt ops (newDaoLru cap0) \<and> fst (Get k s) = Inr v \<and> k \<notin> fst ` set kvs' \<and>
    int (length kvs') < capacity s"
  then have i: "lruInv s" by (simp add: lruInv_run [OF lruInv_newDaoLru])
  from a have h: "fst (Get k s) = Inr v" and n: "k \<notin> fst ` set kvs'"
    and l: "int (length kvs') < capacity s" by blast+
  show "fst (Get k (run dflt (putAll kvs') (snd (Get k s)))) = Inr v"
    by (rule Get_promotes [OF i h n l])
qed


subsection \<open>Runs on sample inputs\<close>

lemmas lru_eval =
  putAll_def Put_def Get_def Del_def addElement_def delListFrontElement_def resetCapacity_def
  Clear_def newDaoLru_def MoveToBack_def Remove_def delLoop_step

lemma sample_two:
  "run 8 [OpPut ''a'' (1::nat), OpPut ''b'' 2] (newDaoLru 2) =
   \<lparr>elements = [''a'' \<mapsto> \<lparr>listElem = 0, model = 1\<rparr>, ''b'' \<mapsto> \<lparr>listElem = 1, model = 2\<rparr>],
    lruList = [(0, ''a''), (1, ''b'')], capacity = 2, used = 2, nextElem = 2\<rparr>"
  by (simp add: lru_eval)

text \<open>
  C3 as stated fails: with capacity 2, after \<open>Get(a)\<close> hits, putting 2 new keys
  evicts \<open>a\<close>.
\<close>

theorem lru_eviction_and_promotion_counterexample:
  "fst (Get ''a'' (run 8 [OpPut ''a'' (1::nat), OpPut ''b'' 2] (newDaoLru 2))) = Inr 1 \<and>
   capacity (run 8 [OpPut ''a'' (1::nat), OpPut ''b'' 2] (newDaoLru 2)) = 2 \<and>
   fst (Get ''a'' (run 8 (putAll [(''c'', 3), (''d'', 4)])
          (snd (Get ''a'' (run 8 [OpPut ''a'' (1::nat), OpPut ''b'' 2] (newDaoLru 2)))))) =
     Inl ModelNotFoundError"
  unfolding sample_two by (simp add: lru_eval)

theorem lru_eviction_and_promotion_witness:
  "fst (Get ''a'' (run 8 (putAll [(''a'', 1::nat), (''b'', 2), (''c'', 3)]) (newDaoLru 2))) =
     Inl ModelNotFoundError \<and>
   fst (Get ''b'' (run 8 (putAll [(''a'', 1::nat), (''b'', 2), (''c'', 3)]) (newDaoLru 2))) = Inr 2 \<and>
   fst (Get ''c'' (run 8 (putAll [(''a'', 1::nat), (''b'', 2), (''c'', 3)]) (newDaoLru 2))) = Inr 3 \<and>
   fst (Get ''a'' (run 8 [OpPut ''a'' (1::nat), OpPut ''b'' 2] (newDaoLru 2))) = Inr 1 \<and>
   fst (Get ''a'' (run 8 (putAll [(''c'', 3)])
          (snd (Get ''a'' (run 8 [OpPut ''a'' (1::nat), OpPut ''b'' 2] (newDaoLru 2)))))) = Inr 1"
proof -
  have h: "fst (Get ''a'' (run 8 [OpPut ''a'' (1::nat), OpPut ''b'' 2] (newDaoLru 2))) = Inr 1"
    and c: "capacity (run 8 [OpPut ''a'' (1::nat), OpPut ''b'' 2] (newDaoLru 2)) = 2"
    unfolding sample_two by (simp_all add: lru_eval)
  from lru_eviction_and_promotion [where cap = 2 and kvs = "[(''a'', 1::nat), (''b'', 2), (''c'', 3)]"
      and dflt = 8 and s = "run 8 [OpPut ''a'' (1::nat), OpPut ''b'' 2] (newDaoLru 2)"
      and ops = "[OpPut ''a'' (1::nat), OpPut ''b'' 2]" and ?cap0.0 = 2 and k = "''a''" and v = 1
      and kvs' = "[(''c'', 3)]"] h c
  show ?thesis by simp
qed

theorem cache_map_list_correspondence_witness:
  "lruList (run 8 [OpPut ''a'' (1::nat), OpPut ''b'' 2, OpGet ''a'', OpPut ''c'' 3] (newDaoLru 2)) =
     [(0, ''a''), (2, ''c'')] \<and>
   dom (elements (run 8 [OpPut ''a'' (1::nat), OpPut ''b'' 2, OpGet ''a'', OpPut ''c'' 3] (newDaoLru 2))) =
     {''a'', ''c''} \<and>
   used (run 8 [OpPut ''a'' (1::nat), OpPut ''b'' 2, OpGet ''a'', OpPut ''c'' 3] (newDaoLru 2)) = 2 \<and>
   bij_betw snd
     (set (lruList (run 8 [OpPut ''a'' (1::nat), OpPut ''b'' 2, OpGet ''a'', OpPut ''c'' 3] (newDaoLru 2))))
     (dom (elements (run 8 [OpPut ''a'' (1::nat), OpPut ''b'' 2, OpGet ''a'', OpPut ''c'' 3] (newDaoLru 2))))"
proof -
  let ?s = "run 8 [OpPut ''a'' (1::nat), OpPut ''b'' 2, OpGet ''a'', OpPut ''c'' 3] (newDaoLru 2)"
  have l: "lruList ?s = [(0, ''a''), (2, ''c'')]" by (simp add: lru_eval)
  have d: "dom (elements ?s) = {''a'', ''c''}" by (auto simp: lru_eval split: if_splits)
  have u: "used ?s = 2" by (simp add: lru_eval)
  from cache_map_list_correspondence [OF refl, of 8
      "[OpPut ''a'' (1::nat), OpPut ''b'' 2, OpGet ''a'', OpPut ''c'' 3]" 2] l d u
  show ?thesis by blast
qed

theorem Put_Get_roundtrip_witness:
  "capacity (run 8 [OpPut ''a'' (1::nat), OpPut ''b'' 2] (newDaoLru 2)) = 2 \<and>
   (\<exists>s'. Put ''c'' 3 (run 8 [OpPut ''a'' (1::nat), OpPut ''b'' 2] (newDaoLru 2)) = Returned s' \<and>
         fst (Get ''c'' s') = Inr 3)"
proof -
  have c: "capacity (run 8 [OpPut ''a'' (1::nat), OpPut ''b'' 2] (newDaoLru 2)) = 2"
    unfolding sample_two by simp
  then have "1 \<le> capacity (run 8 [OpPut ''a'' (1::nat), OpPut ''b'' 2] (newDaoLru 2))" by simp
  from Put_Get_roundtrip [OF refl this, of "''c''" 3] c show ?thesis by blast
qed


section \<open>Properties of the decoder\<close>

subsection \<open>Integer sources into boolean fields\<close>

lemma sint_scast_64:
  "sint (scast (a :: 8 word) :: 64 word) = sint a"
  "sint (scast (b :: 16 word) :: 64 word) = sint b"
  "sint (scast (c :: 32 word) :: 64 word) = sint c"
  by (simp_all add: sint_up_scast is_up)

lemma uint_ucast_64:
  "uint (ucast (a :: 8 word) :: 64 word) = uint a"
  "uint (ucast (b :: 16 word) :: 64 word) = uint b"
  "uint (ucast (c :: 32 word) :: 64 word) = uint c"
  by (simp_all add: uint_up_ucast is_up)

lemma unat_pos_uint: "(0 < unat w) = (0 < uint w)"
  by (simp add: unat_gt_0 word_neq_0_conv word_less_def)

lemma uint_pos_iff: "(0 < uint w) = (uint w \<noteq> 0)"
  using uint_nonnegative [of w] by linarith

lemma integerValue_unsigned:
  "integerValue d = Some n \<Longrightarrow> isUintSeriesType (kindOfType (typeOfData d)) \<Longrightarrow> 0 \<le> n"
  by (cases d) (auto simp: isUintSeriesType_def)

lemma scan_integer_into_bool:
  "integerValue d = Some n \<Longrightarrow> kindOfType ty = KBool \<Longrightarrow> scan E ty d = Ok (VBool (0 < n))"
  by (cases d)
     (auto simp: scan_def integerConverter_def isIntSeriesType_def isUintSeriesType_def
        isFloatSeriesType_def SetBool_def sint_scast_64 uint_ucast_64 unat_pos_uint)

text \<open>
  C1, as the code has it. An integer-family source value decoded into a boolean field
  sets it to true exactly when the value is greater than zero: for an unsigned source
  that is when it is non-zero, and a negative signed source gives false.
\<close>

theorem scan_integer_bool:
  "integerValue d = Some n \<Longrightarrow> kindOfType ty = KBool \<Longrightarrow>
   scan E ty d = Ok (VBool (0 < n)) \<and>
   (isUintSeriesType (kindOfType (typeOfData d)) \<longrightarrow> (0 < n) = (n \<noteq> 0))"
  using scan_integer_into_bool [of d n ty E] integerValue_unsigned [of d n] by auto

theorem scan_integer_bool_witness:
  "scan sampleEnv (TBasic KBool) (DInt 7) = Ok (VBool True) \<and>
   scan sampleEnv (TBasic KBool) (DInt 0) = Ok (VBool False) \<and>
   scan sampleEnv (TBasic KBool) (DUint8 255) = Ok (VBool True)"
  using scan_integer_bool [of "DInt 7" 7 "TBasic KBool" sampleEnv]
    scan_integer_bool [of "DInt 0" 0 "TBasic KBool" sampleEnv]
    scan_integer_bool [of "DUint8 255" 255 "TBasic KBool" sampleEnv]
  by simp

text \<open>C1 as stated fails: the signed source value -1 is non-zero and gives false.\<close>

theorem scan_integer_bool_counterexample:
  "integerValue (DInt64 (-1) :: (unit, unit) dataVal) = Some (-1) \<and>
   scan sampleEnv (TBasic KBool) (DInt64 (-1)) = Ok (VBool False)"
  by (simp add: scan_def integerConverter_def isIntSeriesType_def isUintSeriesType_def SetBool_def)

subsection \<open>The lookup name of a tag\<close>

lemma IndexByte_first:
  "c \<notin> set seg \<Longrightarrow> IndexByte (seg @ c # rest) c = Some (length seg)"
  by (induction seg) auto

lemma IndexByte_absent:
  "c \<notin> set s \<Longrightarrow> IndexByte s c = None"
  by (induction s) auto

lemma tagLookupName_comma:
  "CHR '','' \<notin> set seg \<Longrightarrow>
   tagLookupName (seg @ CHR '','' # rest) = (if seg = ''pk'' then rest else seg)"
  by (simp add: tagLookupName_def IndexByte_first)

lemma tagLookupName_plain:
  "CHR '','' \<notin> set seg \<Longrightarrow> tagLookupName seg = seg"
  by (simp add: tagLookupName_def IndexByte_absent)

lemma scanField_cong_data:
  "map_of (fieldTag f) tagName = Some tv \<Longrightarrow> data (tagLookupName tv) = data' (tagLookupName tv) \<Longrightarrow>
   scanField E data n tagName b f v = scanField E data' n tagName b f v"
  by (simp add: scanField_def)

lemma scanField_cong_tag:
  "map_of (fieldTag f) tagName = Some tv \<Longrightarrow> map_of (fieldTag f') tagName = Some tv' \<Longrightarrow>
   tagLookupName tv = tagLookupName tv' \<Longrightarrow>
   fieldName f' = fieldName f \<Longrightarrow> fieldType f' = fieldType f \<Longrightarrow>
   fieldExported f' = fieldExported f \<Longrightarrow> fieldScanner f' = fieldScanner f \<Longrightarrow>
   fieldTypeIfe f' = fieldTypeIfe f \<Longrightarrow>
   scanField E data n tagName b f v = scanField E data n tagName b f' v"
  by (simp add: scanField_def cong: option.case_cong if_cong goType.case_cong res.case_cong)

lemma tag_segment_kept:
  assumes a: "CHR '','' \<notin> set seg" "seg \<noteq> ''pk''"
    "map_of (fieldTag f) tagName = Some (seg @ CHR '','' # rest)"
  shows "tagLookupName (seg @ CHR '','' # rest) = seg \<and>
   scanField E data targetName tagName bindModel f v =
     scanField E data targetName tagName bindModel (f\<lparr>fieldTag := [(tagName, seg)]\<rparr>) v \<and>
   (data seg = data' seg \<longrightarrow>
      scanField E data targetName tagName bindModel f v =
        scanField E data' targetName tagName bindModel f v)"
proof (intro conjI impI)
  show n: "tagLookupName (seg @ CHR '','' # rest) = seg"
    using a by (simp add: tagLookupName_comma)
  show "scanField E data targetName tagName bindModel f v =
     scanField E data targetName tagName bindModel (f\<lparr>fieldTag := [(tagName, seg)]\<rparr>) v"
    using a(1) a(3) n by (intro scanField_cong_tag [where tv' = seg]) (simp_all add: tagLookupName_plain)
  assume d: "data seg = data' seg"
  show "scanField E data targetName tagName bindModel f v =
        scanField E data' targetName tagName bindModel f v"
    by (rule scanField_cong_data [OF a(3)]) (simp only: n d)
qed

lemma tagLookupName_pk: "tagLookupName (''pk'' @ CHR '','' # rest) = rest"
  using tagLookupName_comma [of "''pk''" rest] by simp

lemma tag_pk_remainder:
  assumes a: "map_of (fieldTag f) tagName = Some (''pk'' @ CHR '','' # rest)"
  shows "tagLookupName (''pk'' @ CHR '','' # rest) = rest \<and>
   (CHR '','' \<notin> set rest \<longrightarrow>
      scanField E data targetName tagName bindModel f v =
        scanField E data targetName tagName bindModel (f\<lparr>fieldTag := [(tagName, rest)]\<rparr>) v) \<and>
   (data rest = data' rest \<longrightarrow>
      scanField E data targetName tagName bindModel f v =
        scanField E data' targetName tagName bindModel f v)"
proof (intro conjI impI)
  show "tagLookupName (''pk'' @ CHR '','' # rest) = rest" by (rule tagLookupName_pk)
  assume c: "CHR '','' \<notin> set rest"
  have t: "tagLookupName (''pk'' @ CHR '','' # rest) = tagLookupName rest"
    using tagLookupName_plain [OF c] by (simp only: tagLookupName_pk)
  have m: "map_of (fieldTag (f\<lparr>fieldTag := [(tagName, rest)]\<rparr>)) tagName = Some rest"
    by simp
  show "scanField E data targetName tagName bindModel f v =
        scanField E data targetName tagName bindModel (f\<lparr>fieldTag := [(tagName, rest)]\<rparr>) v"
    by (rule scanField_cong_tag [OF a m t]) simp_all
next
  assume d: "data rest = data' rest"
  show "scanField E data targetName tagName bindModel f v =
        scanField E data' targetName tagName bindModel f v"
    by (rule scanField_cong_data [OF a]) (simp only: tagLookupName_pk d)
qed

text \<open>
  C2, as the code has it. For a tag value with a comma whose first segment is not
  \<open>pk\<close>, the lookup name is the first segment and the text after the comma is dropped:
  the field is decoded as if its tag were the first segment alone, and the raw mapping
  is read under that name only. For the first segment \<open>pk\<close> the lookup name is all
  the text after the first comma, and the raw mapping is read under that name only.
\<close>

theorem tag_first_segment:
  "(CHR '','' \<notin> set seg \<and> seg \<noteq> ''pk'' \<and>
    map_of (fieldTag f) tagName = Some (seg @ CHR '','' # rest) \<longrightarrow>
      tagLookupName (seg @ CHR '','' # rest) = seg \<and>
      scanField E data targetName tagName bindModel f v =
        scanField E data targetName tagName bindModel (f\<lparr>fieldTag := [(tagName, seg)]\<rparr>) v \<and>
      (data seg = data' seg \<longrightarrow>
         scanField E data targetName tagName bindModel f v =
           scanField E data' targetName tagName bindModel f v)) \<and>
   (map_of (fieldTag f) tagName = Some (''pk'' @ CHR '','' # rest) \<longrightarrow>
      tagLookupName (''pk'' @ CHR '','' # rest) = rest \<and>
      (CHR '','' \<notin> set rest \<longrightarrow>
         scanField E data targetName tagName bindModel f v =
           scanField E data targetName tagName bindModel (f\<lparr>fieldTag := [(tagName, rest)]\<rparr>) v) \<and>
      (data rest = data' rest \<longrightarrow>
         scanField E data targetName tagName bindModel f v =
           scanField E data' targetName tagName bindModel f v))"
proof (intro conjI)
  show "CHR '','' \<notin> set seg \<and> seg \<noteq> ''pk'' \<and>
    map_of (fieldTag f) tagName = Some (seg @ CHR '','' # rest) \<longrightarrow>
      tagLookupName (seg @ CHR '','' # rest) = seg \<and>
      scanField E data targetName tagName bindModel f v =
        scanField E data targetName tagName bindModel (f\<lparr>fieldTag := [(tagName, seg)]\<rparr>) v \<and>
      (data seg = data' seg \<longrightarrow>
         scanField E data targetName tagName bindModel f v =
           scanField E data' targetName tagName bindModel f v)"
    using tag_segment_kept [of seg f tagName rest E data targetName bindModel v data'] by blast
  show "map_of (fieldTag f) tagName = Some (''pk'' @ CHR '','' # rest) \<longrightarrow>
      tagLookupName (''pk'' @ CHR '','' # rest) = rest \<and>
      (CHR '','' \<notin> set rest \<longrightarrow>
         scanField E data targetName tagName bindModel f v =
           scanField E data targetName tagName bindModel (f\<lparr>fieldTag := [(tagName, rest)]\<rparr>) v) \<and>
      (data rest = data' rest \<longrightarrow>
         scanField E data targetName tagName bindModel f v =
           scanField E data' targetName tagName bindModel f v)"
    using tag_pk_remainder [of f tagName rest E data targetName bindModel v data'] by blast
qed

lemma scan_string_string:
  "scan E (TBasic KString) (DString s) = Ok (VString s)"
  by (simp add: scan_def stringConverter_def parseInto_def SetString_def
      isIntSeriesType_def isUintSeriesType_def isFloatSeriesType_def)

theorem tag_first_segment_witness:
  "tagLookupName ''name,omitempty'' = ''name'' \<and>
   scanField sampleEnv [''name'' \<mapsto> DString ''v''] ''T'' ''db'' False
     (plainField ''F'' [(''db'', ''name,omitempty'')] (TBasic KString)) (VString []) =
   (None, VString ''v'') \<and>
   tagLookupName ''pk,id'' = ''id'' \<and>
   scanField sampleEnv [''id'' \<mapsto> DString ''v''] ''T'' ''db'' False
     (plainField ''F'' [(''db'', ''pk,id'')] (TBasic KString)) (VString []) =
   (None, VString ''v'') \<and>
   scanField sampleEnv [''pk'' \<mapsto> DString ''v''] ''T'' ''db'' False
     (plainField ''F'' [(''db'', ''pk,id'')] (TBasic KString)) (VString []) =
   (None, VString [])"
  using tag_first_segment [where seg = "''name''"
      and f = "plainField ''F'' [(''db'', ''name,omitempty'')] (TBasic KString)"
      and tagName = "''db''" and rest = "''omitempty''" and E = sampleEnv
      and data = "[''name'' \<mapsto> DString ''v'']" and targetName = "''T''" and bindModel = False
      and v = "VString []"]
    tag_first_segment [where seg = "''name''"
      and f = "plainField ''F'' [(''db'', ''pk,id'')] (TBasic KString)"
      and tagName = "''db''" and rest = "''id''" and E = sampleEnv
      and data = "[''id'' \<mapsto> DString ''v'']" and targetName = "''T''" and bindModel = False
      and v = "VString []"]
  by (simp add: plainField_def scanField_def tagLookupName_plain scan_string_string)

text \<open>
  C2 as stated fails: with the tag \<open>x,name\<close> a raw value under \<open>name\<close> is not
  decoded, one under \<open>x\<close> is.
\<close>

theorem tag_first_segment_counterexample:
  "tagLookupName ''x,name'' = ''x'' \<and>
   ScanStruct sampleEnv [''name'' \<mapsto> DString ''v'']
     (PointerTo (ObjStruct ''T'' [(plainField ''F'' [(''db'', ''x,name'')] (TBasic KString), VString [])]))
     ''db'' False =
   (None, PointerTo (ObjStruct ''T'' [(plainField ''F'' [(''db'', ''x,name'')] (TBasic KString), VString [])])) \<and>
   ScanStruct sampleEnv [''x'' \<mapsto> DString ''v'']
     (PointerTo (ObjStruct ''T'' [(plainField ''F'' [(''db'', ''x,name'')] (TBasic KString), VString [])]))
     ''db'' False =
   (None, PointerTo (ObjStruct ''T'' [(plainField ''F'' [(''db'', ''x,name'')] (TBasic KString), VString ''v'')]))"
proof -
  have n: "tagLookupName ''x,name'' = ''x''"
    using tagLookupName_comma [of "''x''" "''name''"] by simp
  show ?thesis
    by (simp add: n ScanStruct_def scanField_def plainField_def scan_string_string)
qed

subsection \<open>Fields without the tag\<close>

lemma scanField_untagged:
  "map_of (fieldTag f) tagName = None \<Longrightarrow> scanField E data n tagName b f v = (None, v)"
  by (simp add: scanField_def)

lemma scanFields_frame:
  "scanFields E data n tagName b fvs = (err, fvs') \<Longrightarrow>
   map fst fvs' = map fst fvs \<and>
   (\<forall>i < length fvs. map_of (fieldTag (fst (fvs ! i))) tagName = None \<longrightarrow>
      snd (fvs' ! i) = snd (fvs ! i))"
proof (induction fvs arbitrary: err fvs')
  case Nil
  then show ?case by simp
next
  case (Cons fv fvs)
  obtain f v where fv: "fv = (f, v)" by (cases fv)
  obtain e v' where sf: "scanField E data n tagName b f v = (e, v')"
    by (cases "scanField E data n tagName b f v")
  have keep: "map_of (fieldTag f) tagName = None \<Longrightarrow> v' = v"
    using sf by (simp add: scanField_untagged)
  show ?case
  proof (cases e)
    case (Some x)
    with Cons.prems fv sf have "fvs' = (f, v') # fvs" by simp
    with fv keep show ?thesis by (auto simp: nth_Cons split: nat.splits)
  next
    case None
    obtain e2 rest' where r: "scanFields E data n tagName b fvs = (e2, rest')"
      by (cases "scanFields E data n tagName b fvs")
    with Cons.prems fv sf None have f': "fvs' = (f, v') # rest'" by simp
    from Cons.IH [OF r] f' fv keep show ?thesis
      by (auto simp: nth_Cons split: nat.splits)
  qed
qed

lemma scanObj_zero_struct:
  "scanObj E data (zeroObj E (OTStruct name fs)) tagName b = (err, obj) \<Longrightarrow>
   \<exists>fvs'. obj = ObjStruct name fvs' \<and> map fst fvs' = fs \<and>
     (\<forall>i < length fs. map_of (fieldTag (fs ! i)) tagName = None \<longrightarrow>
        snd (fvs' ! i) = zeroVal E (fieldType (fs ! i)))"
proof -
  assume a: "scanObj E data (zeroObj E (OTStruct name fs)) tagName b = (err, obj)"
  let ?z = "map (\<lambda>f. (f, zeroVal E (fieldType f))) fs"
  obtain e fvs' where s: "scanFields E data name tagName b ?z = (e, fvs')"
    by (cases "scanFields E data name tagName b ?z")
  with a have o: "obj = ObjStruct name fvs'" by simp
  from scanFields_frame [OF s] have
    m: "map fst fvs' = map fst ?z" and
    k: "\<forall>i < length ?z. map_of (fieldTag (fst (?z ! i))) tagName = None \<longrightarrow>
          snd (fvs' ! i) = snd (?z ! i)" by blast+
  have "map fst ?z = fs" by (simp add: comp_def)
  with m k o show ?thesis by simp
qed

text \<open>
  C9. Whatever the raw mapping holds and whether decoding succeeds or fails, a struct
  target keeps its fields, and every field without the tag keeps the contents it had.
  A pointer target is set, on success only, to a new struct whose fields without the
  tag hold the zero value of their type.
\<close>

theorem untagged_field_untouched:
  "(ScanStruct E data (PointerTo (ObjStruct name fvs)) tagName bindModel = (err, target') \<longrightarrow>
      (\<exists>fvs'. target' = PointerTo (ObjStruct name fvs') \<and> map fst fvs' = map fst fvs \<and>
         (\<forall>i < length fvs. map_of (fieldTag (fst (fvs ! i))) tagName = None \<longrightarrow>
            snd (fvs' ! i) = snd (fvs ! i)))) \<and>
   (ScanStruct E data (PointerTo (ObjPtr (OTStruct name fs) cur)) tagName bindModel = (None, target') \<longrightarrow>
      (\<exists>fvs'. target' = PointerTo (ObjPtr (OTStruct name fs) (Some (ObjStruct name fvs'))) \<and>
         map fst fvs' = fs \<and>
         (\<forall>i < length fs. map_of (fieldTag (fs ! i)) tagName = None \<longrightarrow>
            snd (fvs' ! i) = zeroVal E (fieldType (fs ! i))))) \<and>
   (ScanStruct E data (PointerTo (ObjPtr (OTStruct name fs) cur)) tagName bindModel = (Some e, target') \<longrightarrow>
      target' = PointerTo (ObjPtr (OTStruct name fs) cur))"
proof (intro conjI impI)
  assume a: "ScanStruct E data (PointerTo (ObjStruct name fvs)) tagName bindModel = (err, target')"
  obtain e2 fvs' where s: "scanFields E data name tagName bindModel fvs = (e2, fvs')"
    by (cases "scanFields E data name tagName bindModel fvs")
  with a have "target' = PointerTo (ObjStruct name fvs')"
    by (simp add: ScanStruct_def)
  with scanFields_frame [OF s] show
    "\<exists>fvs'. target' = PointerTo (ObjStruct name fvs') \<and> map fst fvs' = map fst fvs \<and>
         (\<forall>i < length fvs. map_of (fieldTag (fst (fvs ! i))) tagName = None \<longrightarrow>
            snd (fvs' ! i) = snd (fvs ! i))" by blast
next
  assume a: "ScanStruct E data (PointerTo (ObjPtr (OTStruct name fs) cur)) tagName bindModel = (None, target')"
  obtain e2 obj where s: "scanObj E data (zeroObj E (OTStruct name fs)) tagName bindModel = (e2, obj)"
    by (cases "scanObj E data (zeroObj E (OTStruct name fs)) tagName bindModel")
  with a have t: "e2 = None" "target' = PointerTo (ObjPtr (OTStruct name fs) (Some obj))"
    by (auto simp: ScanStruct_def split: option.splits)
  with scanObj_zero_struct [OF s] show
    "\<exists>fvs'. target' = PointerTo (ObjPtr (OTStruct name fs) (Some (ObjStruct name fvs'))) \<and>
         map fst fvs' = fs \<and>
         (\<forall>i < length fs. map_of (fieldTag (fs ! i)) tagName = None \<longrightarrow>
            snd (fvs' ! i) = zeroVal E (fieldType (fs ! i)))" by blast
next
  assume a: "ScanStruct E data (PointerTo (ObjPtr (OTStruct name fs) cur)) tagName bindModel = (Some e, target')"
  then show "target' = PointerTo (ObjPtr (OTStruct name fs) cur)"
    by (auto simp: ScanStruct_def split: option.splits prod.splits)
qed

lemma scan_int_int:
  "scan E (TBasic KInt) (DInt64 i) = Ok (VInt (sint i))"
  by (simp add: scan_def integerConverter_def SetInt_def
      isIntSeriesType_def isUintSeriesType_def isFloatSeriesType_def)

theorem untagged_field_untouched_witness:
  "ScanStruct sampleEnv [''id'' \<mapsto> DInt64 7, ''Note'' \<mapsto> DInt64 9]
     (PointerTo (ObjStruct ''T''
        [(plainField ''Id'' [(''db'', ''id'')] (TBasic KInt), VInt 0),
         (plainField ''Note'' [(''json'', ''Note'')] (TBasic KInt), VInt 5)]))
     ''db'' False =
   (None, PointerTo (ObjStruct ''T''
        [(plainField ''Id'' [(''db'', ''id'')] (TBasic KInt), VInt 7),
         (plainField ''Note'' [(''json'', ''Note'')] (TBasic KInt), VInt 5)]))"
  using untagged_field_untouched [of sampleEnv "[''id'' \<mapsto> DInt64 7, ''Note'' \<mapsto> DInt64 9]" "''T''"
      "[(plainField ''Id'' [(''db'', ''id'')] (TBasic KInt), VInt 0),
        (plainField ''Note'' [(''json'', ''Note'')] (TBasic KInt), VInt 5)]" "''db''" False]
  by (simp add: ScanStruct_def scanField_def plainField_def tagLookupName_def scan_int_int)

subsection \<open>Batch decoding\<close>

lemma ScanStruct_PointerTo:
  "ScanStruct E row (PointerTo obj) tagName b = (err, target') \<Longrightarrow> \<exists>obj'. target' = PointerTo obj'"
  by (auto simp: ScanStruct_def split: prod.splits)

lemma scanRows_ok:
  "\<forall>row \<in> set data. fst (ScanStruct E row (PointerTo (zeroObj E t)) tagName b) = None \<Longrightarrow>
   \<exists>objs. scanRows E data t tagName b acc = Inr (acc @ objs) \<and>
     map PointerTo objs = map (\<lambda>row. snd (ScanStruct E row (PointerTo (zeroObj E t)) tagName b)) data"
proof (induction data arbitrary: acc)
  case Nil
  then show ?case by simp
next
  case (Cons row rows)
  obtain target' where r: "ScanStruct E row (PointerTo (zeroObj E t)) tagName b = (None, target')"
    using Cons.prems by (cases "ScanStruct E row (PointerTo (zeroObj E t)) tagName b") auto
  then obtain obj where o: "target' = PointerTo obj"
    using ScanStruct_PointerTo by blast
  from Cons.prems have "\<forall>row \<in> set rows. fst (ScanStruct E row (PointerTo (zeroObj E t)) tagName b) = None"
    by simp
  from Cons.IH [OF this, of "acc @ [obj]"] obtain objs where
    "scanRows E rows t tagName b (acc @ [obj]) = Inr ((acc @ [obj]) @ objs)"
    "map PointerTo objs = map (\<lambda>row. snd (ScanStruct E row (PointerTo (zeroObj E t)) tagName b)) rows"
    by blast
  with r o show ?case
    by (intro exI [of _ "obj # objs"]) simp
qed

lemma scanRows_fail:
  "\<forall>r \<in> set pre. fst (ScanStruct E r (PointerTo (zeroObj E t)) tagName b) = None \<Longrightarrow>
   fst (ScanStruct E row (PointerTo (zeroObj E t)) tagName b) = Some e \<Longrightarrow>
   scanRows E (pre @ row # post) t tagName b acc = Inl e"
proof (induction pre arbitrary: acc)
  case Nil
  then show ?case
    by (cases "ScanStruct E row (PointerTo (zeroObj E t)) tagName b") auto
next
  case (Cons r rs)
  obtain target' where r: "ScanStruct E r (PointerTo (zeroObj E t)) tagName b = (None, target')"
    using Cons.prems by (cases "ScanStruct E r (PointerTo (zeroObj E t)) tagName b") auto
  then obtain obj where o: "target' = PointerTo obj"
    using ScanStruct_PointerTo by blast
  from Cons.prems have "\<forall>r \<in> set rs. fst (ScanStruct E r (PointerTo (zeroObj E t)) tagName b) = None"
    by simp
  from Cons.IH [OF this Cons.prems(2), of "acc @ [obj]"] r o show ?case by simp
qed

lemma ScanStructSlice_error_frame:
  "fst (ScanStructSlice E data target tagName b) \<noteq> None \<Longrightarrow>
   snd (ScanStructSlice E data target tagName b) = target"
  by (auto simp: ScanStructSlice_def split: sliceTarget.splits sum.splits)

text \<open>
  C6. For a target that points to a slice: when a row fails after rows that decode,
  the batch returns that row's error and the slice is what it was; when every row
  decodes, the slice holds the decoded objects, one per row, in the order of the rows.
  For any target at all, a returned error leaves the target as it was.
\<close>

theorem ScanStructSlice_all_or_nothing:
  "((\<forall>r \<in> set pre. fst (ScanStruct E r (PointerTo (zeroObj E t)) tagName b) = None) \<and>
    fst (ScanStruct E row (PointerTo (zeroObj E t)) tagName b) = Some e \<longrightarrow>
      ScanStructSlice E (pre @ row # post) (SPointerToSlice t old) tagName b =
        (Some e, SPointerToSlice t old)) \<and>
   ((\<forall>row \<in> set data. fst (ScanStruct E row (PointerTo (zeroObj E t)) tagName b) = None) \<longrightarrow>
      (\<exists>objs. ScanStructSlice E data (SPointerToSlice t old) tagName b =
                 (None, SPointerToSlice t objs) \<and>
         map PointerTo objs =
           map (\<lambda>row. snd (ScanStruct E row (PointerTo (zeroObj E t)) tagName b)) data)) \<and>
   (fst (ScanStructSlice E data target tagName b) \<noteq> None \<longrightarrow>
      snd (ScanStructSlice E data target tagName b) = target)"
proof (intro conjI impI)
  assume "(\<forall>r \<in> set pre. fst (ScanStruct E r (PointerTo (zeroObj E t)) tagName b) = None) \<and>
    fst (ScanStruct E row (PointerTo (zeroObj E t)) tagName b) = Some e"
  then have "scanRows E (pre @ row # post) t tagName b [] = Inl e"
    by (intro scanRows_fail) simp_all
  then show "ScanStructSlice E (pre @ row # post) (SPointerToSlice t old) tagName b =
        (Some e, SPointerToSlice t old)"
    by (simp add: ScanStructSlice_def)
next
  assume "\<forall>row \<in> set data. fst (ScanStruct E row (PointerTo (zeroObj E t)) tagName b) = None"
  from scanRows_ok [OF this, of "[]"] obtain objs where
    "scanRows E data t tagName b [] = Inr objs"
    "map PointerTo objs = map (\<lambda>row. snd (ScanStruct E row (PointerTo (zeroObj E t)) tagName b)) data"
    by auto
  then show "\<exists>objs. ScanStructSlice E data (SPointerToSlice t old) tagName b =
                 (None, SPointerToSlice t objs) \<and>
         map PointerTo objs =
           map (\<lambda>row. snd (ScanStruct E row (PointerTo (zeroObj E t)) tagName b)) data"
    by (simp add: ScanStructSlice_def)
next
  assume "fst (ScanStructSlice E data target tagName b) \<noteq> None"
  then show "snd (ScanStructSlice E data target tagName b) = target"
    by (rule ScanStructSlice_error_frame)
qed

lemma scan_int_other:
  "scan E (TBasic KInt) (DOther KBool) = Err ErrNotSupportType"
  by (simp add: scan_def integerConverter_def SetInt_def
      isIntSeriesType_def isUintSeriesType_def isFloatSeriesType_def)

lemma ScanStruct_sample_ok:
  "ScanStruct sampleEnv [''id'' \<mapsto> DInt64 i] (PointerTo (zeroObj sampleEnv sampleRowType)) ''db'' False =
   (None, PointerTo (ObjStruct ''T'' [(plainField ''Id'' [(''db'', ''id'')] (TBasic KInt), VInt (sint i))]))"
  by (simp add: sampleRowType_def ScanStruct_def scanField_def plainField_def tagLookupName_def scan_int_int)

lemma ScanStruct_sample_fail:
  "ScanStruct sampleEnv [''id'' \<mapsto> DOther KBool] (PointerTo (zeroObj sampleEnv sampleRowType)) ''db'' False =
   (Some (ScanError ErrNotSupportType ''T'' ''Id'' (TOther KBool) (TBasic KInt)),
    PointerTo (ObjStruct ''T'' [(plainField ''Id'' [(''db'', ''id'')] (TBasic KInt), VInt 0)]))"
  by (simp add: sampleRowType_def ScanStruct_def scanField_def plainField_def tagLookupName_def
      scan_int_other newScanError_def zeroOfKind_def isIntSeriesType_def)

theorem ScanStructSlice_all_or_nothing_witness:
  "ScanStructSlice sampleEnv ([[''id'' \<mapsto> DInt64 1]] @ [''id'' \<mapsto> DOther KBool] # [[''id'' \<mapsto> DInt64 3]])
     (SPointerToSlice sampleRowType []) ''db'' False =
     (Some (ScanError ErrNotSupportType ''T'' ''Id'' (TOther KBool) (TBasic KInt)),
      SPointerToSlice sampleRowType []) \<and>
   ScanStructSlice sampleEnv [[''id'' \<mapsto> DInt64 1], [''id'' \<mapsto> DInt64 2]]
     (SPointerToSlice sampleRowType []) ''db'' False =
     (None, SPointerToSlice sampleRowType
        [ObjStruct ''T'' [(plainField ''Id'' [(''db'', ''id'')] (TBasic KInt), VInt 1)],
         ObjStruct ''T'' [(plainField ''Id'' [(''db'', ''id'')] (TBasic KInt), VInt 2)]])"
  using ScanStructSlice_all_or_nothing [of "[[''id'' \<mapsto> DInt64 1]]" sampleEnv sampleRowType "''db''" False
      "[''id'' \<mapsto> DOther KBool]" "ScanError ErrNotSupportType ''T'' ''Id'' (TOther KBool) (TBasic KInt)"
      "[[''id'' \<mapsto> DInt64 3]]" "[]" "[[''id'' \<mapsto> DInt64 1], [''id'' \<mapsto> DInt64 2]]"]
  by (auto simp: ScanStruct_sample_ok ScanStruct_sample_fail)

end
